theory Spec2Isabelle
  imports Complex_Main
begin

section \<open>Text: characters, whitespace, splitting, padding\<close>

text \<open>
  The program (\<^verbatim>\<open>lib/test_system/fix_pdb_alignment.py\<close>) works on Python \<^verbatim>\<open>str\<close> values.
  A \<^typ>\<open>string\<close> here is a list of characters, one \<^typ>\<open>char\<close> per code point; the
  development covers the code points below 256 (ASCII and Latin-1), which is what a PDB
  file holds. The text handed to the functions below is what the file object delivers:
  decoding and newline translation of the I/O layer lie outside.
\<close>

abbreviation NL :: char where
  "NL \<equiv> CHR 0x0A"

abbreviation SP :: char where
  "SP \<equiv> CHR '' ''"

text \<open>\<^verbatim>\<open>str.isspace\<close> on one code point below 256: the characters \<^verbatim>\<open>str.split()\<close> splits
  at.\<close>

definition is_space :: "char \<Rightarrow> bool" where
  "is_space c \<longleftrightarrow>
     c \<in> set [CHR 0x09, CHR 0x0A, CHR 0x0B, CHR 0x0C, CHR 0x0D, CHR 0x1C, CHR 0x1D,
              CHR 0x1E, CHR 0x1F, CHR 0x20, CHR 0x85, CHR 0xA0]"

text \<open>\<^verbatim>\<open>line.startswith(p)\<close>.\<close>

definition startswith :: "string \<Rightarrow> string \<Rightarrow> bool" where
  "startswith s p \<longleftrightarrow> take (length p) s = p"

text \<open>\<^verbatim>\<open>line.split()\<close>: the maximal runs of non-whitespace characters, in order.\<close>

function split_ws :: "string \<Rightarrow> string list" where
  "split_ws [] = []"
| "split_ws (c # cs) =
     (if is_space c then split_ws cs
      else (c # takeWhile (\<lambda>x. \<not> is_space x) cs) # split_ws (dropWhile (\<lambda>x. \<not> is_space x) cs))"
  by pat_completeness auto
termination
  by (relation "measure length") (auto simp: length_dropWhile_le less_Suc_eq_le)

text \<open>The format specifications \<^verbatim>\<open>{s:<w}\<close> and \<^verbatim>\<open>{s:>w}\<close> of a string: padding with spaces
  up to the width \<open>w\<close>, on the right and on the left; a longer string is kept whole.\<close>

definition ljust :: "nat \<Rightarrow> string \<Rightarrow> string" where
  "ljust w s = s @ replicate (w - length s) SP"

definition rjust :: "nat \<Rightarrow> string \<Rightarrow> string" where
  "rjust w s = replicate (w - length s) SP @ s"

text \<open>\<^verbatim>\<open>for line in infile\<close>: the lines of a text, each with its terminating newline; the last
  line has none when the text does not end in one.\<close>

function lines_of :: "string \<Rightarrow> string list" where
  "lines_of [] = []"
| "lines_of (c # cs) =
     (case dropWhile (\<lambda>x. x \<noteq> NL) (c # cs) of
        [] \<Rightarrow> [c # cs]
      | n # rest \<Rightarrow> (takeWhile (\<lambda>x. x \<noteq> NL) (c # cs) @ [n]) # lines_of rest)"
  by pat_completeness auto
termination
proof (relation "measure length")
  show "wf (measure length)" by simp
next
  fix c :: char and cs n rest
  assume a: "dropWhile (\<lambda>x. x \<noteq> NL) (c # cs) = n # rest"
  have "length (dropWhile (\<lambda>x. x \<noteq> NL) (c # cs)) \<le> length (c # cs)"
    by (rule length_dropWhile_le)
  with a show "(rest, c # cs) \<in> measure length" by simp
qed

section \<open>Floating-point numbers: \<^verbatim>\<open>float(s)\<close> and the format \<^verbatim>\<open>w.pf\<close>\<close>

text \<open>
  A Python float is an IEEE 754 binary64 number. \<open>Finite neg m e\<close> is the number
  \<open>\<plusminus> m * 2 ^ e\<close> (negative when \<open>neg\<close>), kept in the one form the encoding has:
  \<open>2 ^ 52 \<le> m < 2 ^ 53\<close> and \<open>- 1074 \<le> e \<le> 971\<close> for a normal number,
  \<open>m < 2 ^ 52\<close> and \<open>e = - 1074\<close> for a subnormal one, and \<open>m = 0\<close>, \<open>e = 0\<close> for a zero
  (which has a sign).
\<close>

datatype pyfloat = Finite bool nat int | Infinity bool | NaN

definition is_digit :: "char \<Rightarrow> bool" where
  "is_digit c \<longleftrightarrow> c \<in> set ''0123456789''"

definition digit_val :: "char \<Rightarrow> nat" where
  "digit_val c = of_char c - 48"

definition digits_val :: "string \<Rightarrow> nat" where
  "digits_val ds = foldl (\<lambda>a c. 10 * a + digit_val c) 0 ds"

text \<open>The lower-case letter of an ASCII capital; every other character is left as it is.\<close>

definition lower_char :: "char \<Rightarrow> char" where
  "lower_char c =
     (case map_of (zip ''ABCDEFGHIJKLMNOPQRSTUVWXYZ'' ''abcdefghijklmnopqrstuvwxyz'') c of
        None \<Rightarrow> c
      | Some l \<Rightarrow> l)"

text \<open>\<open>n / d\<close> rounded to the nearest integer, a tie to the even one.\<close>

definition rnd_div :: "nat \<Rightarrow> nat \<Rightarrow> nat" where
  "rnd_div n d =
     (let q = n div d; r = n mod d
      in if 2 * r < d then q else if d < 2 * r then q + 1 else if even q then q else q + 1)"

text \<open>The number of binary digits of \<open>n\<close>.\<close>

fun bitlen :: "nat \<Rightarrow> nat" where
  "bitlen n = (if n = 0 then 0 else Suc (bitlen (n div 2)))"

declare bitlen.simps [simp del]

text \<open>For \<open>n, d > 0\<close>: the \<open>k\<close> with \<open>2 ^ k \<le> n / d < 2 ^ (k + 1)\<close>.\<close>

definition ilog2_ratio :: "nat \<Rightarrow> nat \<Rightarrow> int" where
  "ilog2_ratio n d =
     (let k = int (bitlen n) - int (bitlen d)
      in if (if 0 \<le> k then d * 2 ^ nat k \<le> n else d \<le> n * 2 ^ nat (- k)) then k else k - 1)"

text \<open>The binary64 number nearest to \<open>n / d\<close> (\<open>d > 0\<close>), a tie to the even significand,
  with the sign \<open>neg\<close>: the correctly rounded conversion that \<^verbatim>\<open>float\<close> performs.\<close>

definition double_of_ratio :: "bool \<Rightarrow> nat \<Rightarrow> nat \<Rightarrow> pyfloat" where
  "double_of_ratio neg n d =
     (if n = 0 then Finite neg 0 0
      else
        let e = max (ilog2_ratio n d - 52) (- 1074);
            m = (if 0 \<le> e then rnd_div n (d * 2 ^ nat e) else rnd_div (n * 2 ^ nat (- e)) d);
            m' = (if m = 2 ^ 53 then 2 ^ 52 else m);
            e' = (if m = 2 ^ 53 then e + 1 else e)
        in if m' = 0 then Finite neg 0 0
           else if 971 < e' then Infinity neg
           else Finite neg m' e')"

text \<open>Underscores of a numeric literal: allowed only between two digits, and removed.
  \<open>prev\<close> is the character before.\<close>

fun strip_underscores :: "char \<Rightarrow> string \<Rightarrow> string option" where
  "strip_underscores prev [] = (if prev = CHR ''_'' then None else Some [])"
| "strip_underscores prev (c # cs) =
     (if c = CHR ''_'' then (if is_digit prev then strip_underscores c cs else None)
      else if prev = CHR ''_'' \<and> \<not> is_digit c then None
      else map_option ((#) c) (strip_underscores c cs))"

text \<open>The white space \<^verbatim>\<open>float\<close> strips from both ends of its argument: among the code
  points below 256, the characters of \<^const>\<open>is_space\<close> apart from the four separators
  \<^verbatim>\<open>0x1C\<close> to \<^verbatim>\<open>0x1F\<close>.\<close>

definition is_float_space :: "char \<Rightarrow> bool" where
  "is_float_space c \<longleftrightarrow>
     c \<in> set [CHR 0x09, CHR 0x0A, CHR 0x0B, CHR 0x0C, CHR 0x0D, CHR 0x20, CHR 0x85, CHR 0xA0]"

definition strip :: "string \<Rightarrow> string" where
  "strip s = rev (dropWhile is_float_space (rev (dropWhile is_float_space s)))"

fun take_sign :: "string \<Rightarrow> bool \<times> string" where
  "take_sign [] = (False, [])"
| "take_sign (c # cs) =
     (if c = CHR ''-'' then (True, cs) else if c = CHR ''+'' then (False, cs) else (False, c # cs))"

text \<open>The exponent part: nothing, or \<^verbatim>\<open>e\<close> or \<^verbatim>\<open>E\<close>, an optional sign and at least one digit.\<close>

definition parse_exponent :: "string \<Rightarrow> int option" where
  "parse_exponent r =
     (case r of
        [] \<Rightarrow> Some 0
      | c # cs \<Rightarrow>
          if c = CHR ''e'' \<or> c = CHR ''E'' then
            (case take_sign cs of
               (neg, ds) \<Rightarrow>
                 if ds \<noteq> [] \<and> list_all is_digit ds
                 then Some (if neg then - int (digits_val ds) else int (digits_val ds))
                 else None)
          else None)"

text \<open>The digits, with an optional point, and the exponent: \<open>Some (m, ex)\<close> stands for
  \<open>m * 10 ^ ex\<close>. At least one digit stands before or after the point.\<close>

definition parse_decimal :: "string \<Rightarrow> (nat \<times> int) option" where
  "parse_decimal s =
     (let ip = takeWhile is_digit s;
          r1 = dropWhile is_digit s;
          fp = (case r1 of [] \<Rightarrow> [] | c # cs \<Rightarrow> if c = CHR ''.'' then takeWhile is_digit cs else []);
          r2 = (case r1 of [] \<Rightarrow> [] | c # cs \<Rightarrow> if c = CHR ''.'' then dropWhile is_digit cs else r1)
      in if ip = [] \<and> fp = [] then None
         else (case parse_exponent r2 of
                 None \<Rightarrow> None
               | Some ex \<Rightarrow> Some (digits_val (ip @ fp), ex - int (length fp))))"

text \<open>\<^verbatim>\<open>float(s)\<close> of a string: \<open>None\<close> where Python raises \<^verbatim>\<open>ValueError\<close>.\<close>

definition float_of_string :: "string \<Rightarrow> pyfloat option" where
  "float_of_string s =
     (case strip_underscores (CHR 0x00) s of
        None \<Rightarrow> None
      | Some t \<Rightarrow>
          (case take_sign (strip t) of
             (neg, body) \<Rightarrow>
               if map lower_char body = ''inf'' \<or> map lower_char body = ''infinity''
               then Some (Infinity neg)
               else if map lower_char body = ''nan'' then Some NaN
               else (case parse_decimal body of
                       None \<Rightarrow> None
                     | Some (m, ex) \<Rightarrow>
                         Some (if 0 \<le> ex then double_of_ratio neg (m * 10 ^ nat ex) 1
                               else double_of_ratio neg m (10 ^ nat (- ex))))))"

text \<open>The decimal digits of a number.\<close>

definition digit_char :: "nat \<Rightarrow> char" where
  "digit_char d = ''0123456789'' ! d"

fun digits_of :: "nat \<Rightarrow> string" where
  "digits_of n =
     (if n < 10 then [digit_char n] else digits_of (n div 10) @ [digit_char (n mod 10)])"

declare digits_of.simps [simp del]

text \<open>\<open>m * 2 ^ e * 10 ^ p\<close> rounded to the nearest integer, a tie to the even one.\<close>

definition scaled_round :: "nat \<Rightarrow> nat \<Rightarrow> int \<Rightarrow> nat" where
  "scaled_round p m e =
     (if 0 \<le> e then m * 2 ^ nat e * 10 ^ p else rnd_div (m * 10 ^ p) (2 ^ nat (- e)))"

text \<open>\<open>k / 10 ^ p\<close> written with exactly \<open>p\<close> decimals.\<close>

definition fixed_digits :: "nat \<Rightarrow> nat \<Rightarrow> string" where
  "fixed_digits p k =
     (let ds = replicate (Suc p - length (digits_of k)) (CHR ''0'') @ digits_of k;
          n = length ds - p
      in if p = 0 then ds else take n ds @ ''.'' @ drop n ds)"

text \<open>The presentation \<^verbatim>\<open>.pf\<close> of a float: fixed point, \<open>p\<close> decimals, correctly rounded.\<close>

fun repr_f :: "nat \<Rightarrow> pyfloat \<Rightarrow> string" where
  "repr_f p (Finite neg m e) = (if neg then ''-'' else []) @ fixed_digits p (scaled_round p m e)"
| "repr_f p (Infinity neg) = (if neg then ''-inf'' else ''inf'')"
| "repr_f p NaN = ''nan''"

text \<open>The format specification \<^verbatim>\<open>{v:w.pf}\<close> of a float: right-justified to the width.\<close>

definition format_float :: "nat \<Rightarrow> nat \<Rightarrow> pyfloat \<Rightarrow> string" where
  "format_float w p v = rjust w (repr_f p v)"

section \<open>The aligner\<close>

datatype error = ValueError string

text \<open>\<^verbatim>\<open>float(s)\<close> as the program calls it: the exception names the string.\<close>

definition to_float :: "string \<Rightarrow> error + pyfloat" where
  "to_float s = (case float_of_string s of None \<Rightarrow> Inl (ValueError s) | Some v \<Rightarrow> Inr v)"

text \<open>Lines 16 to 53 of the source: the fields of a coordinate line with at least 11
  parts, and the formatted line. The five conversions run in the order of the f-string.\<close>

definition formatted_line :: "string list \<Rightarrow> error + string" where
  "formatted_line parts =
     (let record_type = parts ! 0;
          atom_num = parts ! 1;
          atom_name = parts ! 2;
          res_name = parts ! 3;
          chain_id = parts ! 4;
          res_num = parts ! 5;
          x = parts ! 6;
          y = parts ! 7;
          z = parts ! 8;
          occupancy = parts ! 9;
          b_factor = parts ! 10;
          element = (if 11 < length parts then parts ! 11 else [])
      in (case to_float x of Inl err \<Rightarrow> Inl err | Inr fx \<Rightarrow>
         (case to_float y of Inl err \<Rightarrow> Inl err | Inr fy \<Rightarrow>
         (case to_float z of Inl err \<Rightarrow> Inl err | Inr fz \<Rightarrow>
         (case to_float occupancy of Inl err \<Rightarrow> Inl err | Inr fo \<Rightarrow>
         (case to_float b_factor of Inl err \<Rightarrow> Inl err | Inr fb \<Rightarrow>
           Inr (ljust 6 record_type
                @ rjust 5 atom_num
                @ '' ''
                @ ljust 4 atom_name
                @ '' ''
                @ rjust 3 res_name
                @ '' ''
                @ rjust 1 chain_id
                @ rjust 4 res_num
                @ ''    ''
                @ format_float 8 3 fx
                @ format_float 8 3 fy
                @ format_float 8 3 fz
                @ format_float 6 2 fo
                @ format_float 6 2 fb
                @ ''          ''
                @ rjust 2 element
                @ [NL])))))))"

text \<open>The body of the loop (lines 12 to 60): what is written for one line, or the error.\<close>

definition process_line :: "string \<Rightarrow> error + string" where
  "process_line line =
     (if startswith line ''ATOM'' \<or> startswith line ''HETATM'' then
        (let parts = split_ws line
         in if 11 \<le> length parts then formatted_line parts else Inr line)
      else Inr line)"

text \<open>The loop over the lines: \<open>out\<close> is the text written so far. An error ends the run
  with what was written before it.\<close>

fun write_lines :: "string list \<Rightarrow> string \<Rightarrow> string \<times> error option" where
  "write_lines [] out = (out, None)"
| "write_lines (line # rest) out =
     (case process_line line of
        Inl err \<Rightarrow> (out, Some err)
      | Inr s \<Rightarrow> write_lines rest (out @ s))"

text \<open>\<^verbatim>\<open>fix_pdb_alignment\<close>, on the text of the input file: the text of the output file and the
  error that ended the run, if any.\<close>

definition fix_pdb_alignment :: "string \<Rightarrow> string \<times> error option" where
  "fix_pdb_alignment input_text = write_lines (lines_of input_text) []"

section \<open>Notions the properties are stated with\<close>

text \<open>The two tests of lines 12 and 15 together: the line is one the loop reformats.\<close>

definition reformats :: "string \<Rightarrow> bool" where
  "reformats line \<longleftrightarrow>
     (startswith line ''ATOM'' \<or> startswith line ''HETATM'') \<and> 11 \<le> length (split_ws line)"

text \<open>The element of line 27: the twelfth part, or the empty string.\<close>

definition element_of :: "string list \<Rightarrow> string" where
  "element_of parts = (if 11 < length parts then parts ! 11 else [])"

text \<open>The columns \<open>a\<close> to \<open>b\<close> of a line, counted from 1.\<close>

definition cols :: "nat \<Rightarrow> nat \<Rightarrow> string \<Rightarrow> string" where
  "cols a b s = take (Suc b - a) (drop (a - 1) s)"

text \<open>\<^verbatim>\<open>t in s\<close>: the string \<open>t\<close> stands somewhere in \<open>s\<close>, whole.\<close>

fun contains :: "string \<Rightarrow> string \<Rightarrow> bool" where
  "contains [] t = (t = [])"
| "contains (c # cs) t = (startswith (c # cs) t \<or> contains cs t)"

text \<open>The fixed-width line of lines 34 to 53, from the six text fields, the five numbers
  as they are written (\<^const>\<open>repr_f\<close>) and the element.\<close>

type_synonym field = string

definition fixed_width ::
  "field \<Rightarrow> field \<Rightarrow> field \<Rightarrow> field \<Rightarrow> field \<Rightarrow> field \<Rightarrow>
   field \<Rightarrow> field \<Rightarrow> field \<Rightarrow> field \<Rightarrow> field \<Rightarrow> field \<Rightarrow> string" where
  "fixed_width rt an nm rn ch rnum sx sy sz so sb el =
     ljust 6 rt @ rjust 5 an @ '' '' @ ljust 4 nm @ '' '' @ rjust 3 rn @ '' '' @ rjust 1 ch
     @ rjust 4 rnum @ ''    '' @ rjust 8 sx @ rjust 8 sy @ rjust 8 sz @ rjust 6 so @ rjust 6 sb
     @ ''          '' @ rjust 2 el @ [NL]"



text \<open>The width a numeric part takes when written with \<open>p\<close> decimals (0 when it is not
  a number).\<close>

definition num_width :: "nat \<Rightarrow> string \<Rightarrow> nat" where
  "num_width p s = (case float_of_string s of None \<Rightarrow> 0 | Some v \<Rightarrow> length (repr_f p v))"

text \<open>The fields of the line stay apart when it is written in fixed width: white space
  stands before every field. Serial follows record type, residue number follows chain id,
  and y, z, occupancy and B-factor follow the number before them, with no space of the
  layout between; so record type or serial is shorter than its width, and the residue
  number and these four numbers as written are. The x coordinate as written fits its
  width.\<close>

definition separated :: "string \<Rightarrow> bool" where
  "separated line \<longleftrightarrow>
     (length (split_ws line ! 0) < 6 \<or> length (split_ws line ! 1) < 5)
     \<and> length (split_ws line ! 5) < 4
     \<and> num_width 3 (split_ws line ! 6) \<le> 8
     \<and> num_width 3 (split_ws line ! 7) < 8
     \<and> num_width 3 (split_ws line ! 8) < 8
     \<and> num_width 2 (split_ws line ! 9) < 6
     \<and> num_width 2 (split_ws line ! 10) < 6"

text \<open>A part as \<^const>\<open>split_ws\<close> yields it: not empty, without white space.\<close>

definition is_token :: "string \<Rightarrow> bool" where
  "is_token t \<longleftrightarrow> t \<noteq> [] \<and> (\<forall>c\<in>set t. \<not> is_space c)"

text \<open>A line as the iteration over a text yields it: not empty, and with no newline but
  possibly its last character. In a list of lines every line but the last ends in one.\<close>

definition is_line :: "string \<Rightarrow> bool" where
  "is_line l \<longleftrightarrow> l \<noteq> [] \<and> NL \<notin> set (butlast l)"

fun lined :: "string list \<Rightarrow> bool" where
  "lined [] = True"
| "lined [l] = is_line l"
| "lined (l # l' # ls) = (is_line l \<and> last l = NL \<and> lined (l' # ls))"

section \<open>Evaluation on concrete texts\<close>

lemma replicate_numeral: "replicate (numeral v) x = x # replicate (numeral v - 1) x"
  by (simp add: numeral_eq_Suc)

lemmas eval_defs =
  is_space_def startswith_def ljust_def rjust_def is_digit_def digit_val_def digits_val_def
  lower_char_def rnd_div_def bitlen.simps ilog2_ratio_def double_of_ratio_def strip_def
  is_float_space_def parse_exponent_def parse_decimal_def float_of_string_def digit_char_def
  digits_of.simps scaled_round_def fixed_digits_def format_float_def to_float_def
  formatted_line_def process_line_def fix_pdb_alignment_def reformats_def element_of_def
  cols_def replicate_numeral Let_def

section \<open>The loop body: its two branches and its errors\<close>

lemma formatted_line_take:
  assumes "11 \<le> length parts"
  shows "formatted_line (take 12 parts) = formatted_line parts"
proof -
  have n: "take 12 parts ! i = parts ! i" if "i < 12" for i
    using that by simp
  have l: "11 < length (take 12 parts) \<longleftrightarrow> 11 < length parts"
    by auto
  show ?thesis
    unfolding formatted_line_def l by (simp only: n [of 0] n [of 1] n [of 2] n [of 3] n [of 4] n [of 5] n [of 6] n [of 7] n [of 8] n [of 9] n [of 10] n [of 11] numeral_less_iff Num.less_num_simps zero_less_numeral one_less_numeral_iff simp_thms)
qed

lemma formatted_line_Inr:
  assumes "to_float (parts ! 6) = Inr fx" "to_float (parts ! 7) = Inr fy"
    "to_float (parts ! 8) = Inr fz" "to_float (parts ! 9) = Inr fo" "to_float (parts ! 10) = Inr fb"
  shows "formatted_line parts =
     Inr (ljust 6 (parts ! 0) @ rjust 5 (parts ! 1) @ '' '' @ ljust 4 (parts ! 2) @ '' ''
          @ rjust 3 (parts ! 3) @ '' '' @ rjust 1 (parts ! 4) @ rjust 4 (parts ! 5) @ ''    ''
          @ format_float 8 3 fx @ format_float 8 3 fy @ format_float 8 3 fz
          @ format_float 6 2 fo @ format_float 6 2 fb @ ''          ''
          @ rjust 2 (element_of parts) @ [NL])"
  using assms by (simp add: formatted_line_def element_of_def)

lemma to_float_Inr_iff: "to_float s = Inr v \<longleftrightarrow> float_of_string s = Some v"
  by (simp add: to_float_def split: option.splits)

lemma to_float_Inl_iff: "to_float s = Inl e \<longleftrightarrow> float_of_string s = None \<and> e = ValueError s"
  by (auto simp add: to_float_def split: option.splits)

lemma formatted_line_Inl_iff:
  "(\<exists>e. formatted_line parts = Inl e) \<longleftrightarrow> (\<exists>i\<in>{6..10}. float_of_string (parts ! i) = None)"
proof -
  have s: "{6..10::nat} = {6, 7, 8, 9, 10}" by auto
  show ?thesis
    unfolding s formatted_line_def Let_def to_float_def
    by (cases "float_of_string (parts ! 6)"; cases "float_of_string (parts ! 7)";
        cases "float_of_string (parts ! 8)"; cases "float_of_string (parts ! 9)";
        cases "float_of_string (parts ! 10)"; simp)
qed

lemma process_line_cases:
  "process_line line = (if reformats line then formatted_line (split_ws line) else Inr line)"
  by (simp add: process_line_def reformats_def)

section \<open>Splitting at white space\<close>

lemma split_ws_spaces: "\<forall>c\<in>set ws. is_space c \<Longrightarrow> split_ws (ws @ s) = split_ws s"
  by (induction ws) auto

lemma split_ws_token:
  assumes "t \<noteq> []" "\<forall>c\<in>set t. \<not> is_space c" "is_space c"
  shows "split_ws (t @ c # s) = t # split_ws (c # s)"
proof -
  obtain a t' where t: "t = a # t'" using assms(1) by (cases t) auto
  have tw: "takeWhile (\<lambda>x. \<not> is_space x) (t' @ c # s) = t'"
    using assms(2,3) unfolding t by (simp add: takeWhile_append2)
  have dw: "dropWhile (\<lambda>x. \<not> is_space x) (t' @ c # s) = c # s"
    using assms(2,3) unfolding t by (simp add: dropWhile_append2)
  show ?thesis using assms(2) unfolding t by (simp add: tw dw)
qed

lemma split_ws_token_end:
  assumes "t \<noteq> []" "\<forall>c\<in>set t. \<not> is_space c"
  shows "split_ws t = [t]"
proof -
  obtain a t' where t: "t = a # t'" using assms(1) by (cases t) auto
  have tw: "takeWhile (\<lambda>x. \<not> is_space x) t' = t'"
    using assms(2) unfolding t by (simp add: takeWhile_eq_all_conv)
  have dw: "dropWhile (\<lambda>x. \<not> is_space x) t' = []"
    using assms(2) unfolding t by (simp add: dropWhile_eq_Nil_conv)
  show ?thesis using assms(2) unfolding t by (simp add: tw dw)
qed

lemma split_ws_tokens: "t \<in> set (split_ws s) \<Longrightarrow> t \<noteq> [] \<and> (\<forall>c\<in>set t. \<not> is_space c)"
proof (induction s arbitrary: t rule: split_ws.induct)
  case 1
  then show ?case by simp
next
  case (2 c cs)
  show ?case
  proof (cases "is_space c")
    case True
    with 2 show ?thesis by simp
  next
    case False
    from "2.prems" False
    have "t = c # takeWhile (\<lambda>x. \<not> is_space x) cs
          \<or> t \<in> set (split_ws (dropWhile (\<lambda>x. \<not> is_space x) cs))"
      by simp
    then show ?thesis
    proof
      assume t: "t = c # takeWhile (\<lambda>x. \<not> is_space x) cs"
      have "\<forall>x\<in>set (takeWhile (\<lambda>x. \<not> is_space x) cs). \<not> is_space x"
        using set_takeWhileD by fastforce
      with False show ?thesis unfolding t by simp
    next
      assume "t \<in> set (split_ws (dropWhile (\<lambda>x. \<not> is_space x) cs))"
      with "2.IH"(2) False show ?thesis by blast
    qed
  qed
qed

lemma split_ws_first:
  assumes "startswith line p" "p \<noteq> []" "\<forall>c\<in>set p. \<not> is_space c"
  shows "split_ws line \<noteq> [] \<and> startswith (hd (split_ws line)) p \<and> startswith line (hd (split_ws line))"
proof -
  obtain a p' where p: "p = a # p'" using assms(2) by (cases p) auto
  from assms(1) have "take (length p) line = p" by (simp add: startswith_def)
  then have "line = p @ drop (length p) line" by (metis append_take_drop_id)
  then obtain r where l: "line = a # p' @ r" unfolding p by (metis append_Cons)
  have na: "\<not> is_space a" and np: "\<forall>c\<in>set p'. \<not> is_space c" using assms(3) unfolding p by auto
  have tw: "takeWhile (\<lambda>x. \<not> is_space x) (p' @ r) = p' @ takeWhile (\<lambda>x. \<not> is_space x) r"
    using np by (simp add: takeWhile_append2)
  have tt: "take (length (takeWhile (\<lambda>x. \<not> is_space x) r)) r = takeWhile (\<lambda>x. \<not> is_space x) r"
    by (rule takeWhile_eq_take [symmetric])
  show ?thesis unfolding l p using na by (simp add: tw tt startswith_def)
qed

section \<open>The lines of a text\<close>

lemma lines_of_line: "NL \<notin> set l \<Longrightarrow> lines_of (l @ NL # rest) = (l @ [NL]) # lines_of rest"
proof -
  assume n: "NL \<notin> set l"
  have n': "\<And>x. x \<in> set l \<Longrightarrow> x \<noteq> NL"
    using n by blast
  have tw: "takeWhile (\<lambda>x. x \<noteq> NL) (l @ NL # rest) = l"
    using takeWhile_append2 [of l "\<lambda>x. x \<noteq> NL" "NL # rest", OF n'] by simp
  have dw: "dropWhile (\<lambda>x. x \<noteq> NL) (l @ NL # rest) = NL # rest"
    using dropWhile_append2 [of l "\<lambda>x. x \<noteq> NL" "NL # rest", OF n'] by simp
  obtain c cs where e: "l @ NL # rest = c # cs" by (cases "l @ NL # rest") auto
  show ?thesis
    unfolding e lines_of.simps using tw dw unfolding e by simp
qed

lemma lines_of_last: "l \<noteq> [] \<Longrightarrow> NL \<notin> set l \<Longrightarrow> lines_of l = [l]"
proof -
  assume a: "l \<noteq> []" and n: "NL \<notin> set l"
  have "\<forall>x\<in>set l. x \<noteq> NL"
    using n by blast
  then have dw: "dropWhile (\<lambda>x. x \<noteq> NL) l = []"
    unfolding dropWhile_eq_Nil_conv .
  obtain c cs where e: "l = c # cs" using a by (cases l) auto
  show ?thesis
    unfolding e lines_of.simps using dw unfolding e by simp
qed

section \<open>The loop over the lines\<close>

lemma write_lines_ok:
  "write_lines ls out = (out', None) \<Longrightarrow> \<exists>rs. map process_line ls = map Inr rs \<and> out' = out @ concat rs"
proof (induction ls arbitrary: out)
  case Nil
  then show ?case by simp
next
  case (Cons l ls)
  from Cons.prems obtain s where s: "process_line l = Inr s" and w: "write_lines ls (out @ s) = (out', None)"
    by (auto split: sum.splits)
  from Cons.IH [OF w] obtain rs where "map process_line ls = map Inr rs" "out' = (out @ s) @ concat rs"
    by blast
  with s have "map process_line (l # ls) = map Inr (s # rs) \<and> out' = out @ concat (s # rs)"
    by simp
  then show ?case by blast
qed

lemma write_lines_ok_conv:
  "map process_line ls = map Inr rs \<Longrightarrow> write_lines ls out = (out @ concat rs, None)"
proof (induction ls arbitrary: out rs)
  case Nil
  then show ?case by simp
next
  case (Cons l ls)
  from Cons.prems obtain s rs' where rs: "rs = s # rs'" and s: "process_line l = Inr s"
    and m: "map process_line ls = map Inr rs'"
    by (cases rs) auto
  show ?case unfolding rs using s Cons.IH [OF m, of "out @ s"] by simp
qed



section \<open>The shape of lines\<close>

lemma lined_Cons: "lined (l # ls) \<longleftrightarrow> is_line l \<and> (ls \<noteq> [] \<longrightarrow> last l = NL) \<and> lined ls"
  by (cases ls) auto

lemma is_line_snoc: "NL \<notin> set t \<Longrightarrow> is_line (t @ [n])"
  by (simp add: is_line_def)

lemma in_set_butlast_or_last: "l \<noteq> [] \<Longrightarrow> x \<in> set l \<Longrightarrow> x \<in> set (butlast l) \<or> x = last l"
  by (induction l) auto

lemma concat_lines_of: "concat (lines_of s) = s"
proof (induction s rule: lines_of.induct)
  case 1
  then show ?case by simp
next
  case (2 c cs)
  show ?case
  proof (cases "dropWhile (\<lambda>x. x \<noteq> NL) (c # cs)")
    case Nil
    then show ?thesis by simp
  next
    case (Cons n rest)
    have "takeWhile (\<lambda>x. x \<noteq> NL) (c # cs) @ dropWhile (\<lambda>x. x \<noteq> NL) (c # cs) = c # cs"
      by (rule takeWhile_dropWhile_id)
    with Cons "2.IH" [OF Cons] show ?thesis by simp
  qed
qed

lemma lined_lines_of: "lined (lines_of s)"
proof (induction s rule: lines_of.induct)
  case 1
  then show ?case by simp
next
  case (2 c cs)
  show ?case
  proof (cases "dropWhile (\<lambda>x. x \<noteq> NL) (c # cs)")
    case Nil
    then have "\<forall>x\<in>set (c # cs). x \<noteq> NL"
      unfolding dropWhile_eq_Nil_conv .
    then have "NL \<notin> set (c # cs)" by blast
    then have "NL \<notin> set (butlast (c # cs))" by (meson in_set_butlastD)
    with Nil show ?thesis by (simp add: is_line_def)
  next
    case (Cons n rest)
    have ne: "dropWhile (\<lambda>x. x \<noteq> NL) (c # cs) \<noteq> []"
      unfolding Cons by simp
    have "\<not> (hd (dropWhile (\<lambda>x. x \<noteq> NL) (c # cs)) \<noteq> NL)"
      by (rule hd_dropWhile [OF ne])
    then have n: "n = NL" unfolding Cons by simp
    have t: "NL \<notin> set (takeWhile (\<lambda>x. x \<noteq> NL) (c # cs))"
      using set_takeWhileD [of NL "\<lambda>x. x \<noteq> NL" "c # cs"] by blast
    have i: "is_line (takeWhile (\<lambda>x. x \<noteq> NL) (c # cs) @ [n])"
      by (rule is_line_snoc [OF t])
    have e: "lines_of (c # cs) = (takeWhile (\<lambda>x. x \<noteq> NL) (c # cs) @ [n]) # lines_of rest"
      unfolding lines_of.simps Cons by simp
    have "lined ((takeWhile (\<lambda>x. x \<noteq> NL) (c # cs) @ [n]) # lines_of rest)"
      unfolding lined_Cons using i "2.IH" [OF Cons] n by simp
    then show ?thesis unfolding e .
  qed
qed

lemma lines_of_one:
  assumes "is_line l"
  shows "lines_of l = [l]"
proof (cases "last l = NL")
  case True
  from assms have "l = butlast l @ [NL]" using True by (metis append_butlast_last_id is_line_def)
  moreover have "lines_of (butlast l @ NL # []) = (butlast l @ [NL]) # lines_of []"
    using assms by (intro lines_of_line) (simp add: is_line_def)
  ultimately show ?thesis by simp
next
  case False
  have "NL \<notin> set l"
    using assms False in_set_butlast_or_last [of l NL] by (auto simp: is_line_def)
  then show ?thesis using assms by (intro lines_of_last) (simp_all add: is_line_def)
qed

lemma lines_of_concat: "lined ls \<Longrightarrow> lines_of (concat ls) = ls"
proof (induction ls rule: lined.induct)
  case 1
  then show ?case by simp
next
  case (2 l)
  then show ?case by (simp add: lines_of_one)
next
  case (3 l l' ls)
  then have il: "is_line l" and la: "last l = NL" and r: "lines_of (concat (l' # ls)) = l' # ls"
    by simp_all
  from il la have l: "l = butlast l @ [NL]" by (metis append_butlast_last_id is_line_def)
  have c: "concat (l # l' # ls) = butlast l @ NL # concat (l' # ls)"
    using l by (metis append_Cons append_Nil append_assoc concat.simps(2))
  have "lines_of (concat (l # l' # ls)) = lines_of (butlast l @ NL # concat (l' # ls))"
    by (simp only: c)
  also have "\<dots> = (butlast l @ [NL]) # lines_of (concat (l' # ls))"
    using il by (intro lines_of_line) (simp add: is_line_def)
  also have "\<dots> = l # l' # ls"
    using l r by (simp only:)
  finally show ?case .
qed

section \<open>The fixed-width line\<close>

lemma formatted_line_fixed_width:
  assumes "float_of_string (parts ! 6) = Some fx" "float_of_string (parts ! 7) = Some fy"
    "float_of_string (parts ! 8) = Some fz" "float_of_string (parts ! 9) = Some fo"
    "float_of_string (parts ! 10) = Some fb"
  shows "formatted_line parts =
     Inr (fixed_width (parts ! 0) (parts ! 1) (parts ! 2) (parts ! 3) (parts ! 4) (parts ! 5)
            (repr_f 3 fx) (repr_f 3 fy) (repr_f 3 fz) (repr_f 2 fo) (repr_f 2 fb)
            (element_of parts))"
  using assms
  by (simp add: formatted_line_def to_float_def fixed_width_def format_float_def element_of_def)

lemma formatted_line_InrD:
  assumes "formatted_line parts = Inr s"
  shows "\<exists>fx fy fz fo fb. float_of_string (parts ! 6) = Some fx \<and> float_of_string (parts ! 7) = Some fy
     \<and> float_of_string (parts ! 8) = Some fz \<and> float_of_string (parts ! 9) = Some fo
     \<and> float_of_string (parts ! 10) = Some fb
     \<and> s = fixed_width (parts ! 0) (parts ! 1) (parts ! 2) (parts ! 3) (parts ! 4) (parts ! 5)
            (repr_f 3 fx) (repr_f 3 fy) (repr_f 3 fz) (repr_f 2 fo) (repr_f 2 fb)
            (element_of parts)"
proof -
  have "\<not> (\<exists>e. formatted_line parts = Inl e)" using assms by simp
  then have "\<forall>i\<in>{6..10}. float_of_string (parts ! i) \<noteq> None"
    unfolding formatted_line_Inl_iff by auto
  then have "float_of_string (parts ! 6) \<noteq> None" "float_of_string (parts ! 7) \<noteq> None"
    "float_of_string (parts ! 8) \<noteq> None" "float_of_string (parts ! 9) \<noteq> None"
    "float_of_string (parts ! 10) \<noteq> None" by simp_all
  then obtain fx fy fz fo fb where f: "float_of_string (parts ! 6) = Some fx"
    "float_of_string (parts ! 7) = Some fy" "float_of_string (parts ! 8) = Some fz"
    "float_of_string (parts ! 9) = Some fo" "float_of_string (parts ! 10) = Some fb"
    by blast
  from formatted_line_fixed_width [OF f] assms f show ?thesis by simp
qed

section \<open>Digits, and the characters of a number as written\<close>

lemma digit_char_is_digit: "d < 10 \<Longrightarrow> is_digit (digit_char d)"
proof -
  assume "d < 10"
  then have "d = 0 \<or> d = 1 \<or> d = 2 \<or> d = 3 \<or> d = 4 \<or> d = 5 \<or> d = 6 \<or> d = 7 \<or> d = 8 \<or> d = 9"
    by arith
  then show ?thesis
    by (elim disjE) (simp_all add: digit_char_def is_digit_def)
qed

lemma digit_val_digit_char: "d < 10 \<Longrightarrow> digit_val (digit_char d) = d"
proof -
  assume "d < 10"
  then have "d = 0 \<or> d = 1 \<or> d = 2 \<or> d = 3 \<or> d = 4 \<or> d = 5 \<or> d = 6 \<or> d = 7 \<or> d = 8 \<or> d = 9"
    by arith
  then show ?thesis
    by (elim disjE) (simp_all add: digit_char_def digit_val_def)
qed

lemma digits_of_digits: "c \<in> set (digits_of n) \<Longrightarrow> is_digit c"
proof (induction n rule: digits_of.induct)
  case (1 n)
  show ?case
  proof (cases "n < 10")
    case True
    with "1.prems" show ?thesis by (simp add: digits_of.simps [of n] digit_char_is_digit)
  next
    case False
    with "1.prems" have "c \<in> set (digits_of (n div 10)) \<or> c = digit_char (n mod 10)"
      by (auto simp add: digits_of.simps [of n])
    with "1.IH" [OF False] show ?thesis by (auto intro: digit_char_is_digit)
  qed
qed

lemma digits_of_nonempty: "digits_of n \<noteq> []"
  by (simp add: digits_of.simps [of n])

lemma digits_val_snoc: "digits_val (ds @ [c]) = 10 * digits_val ds + digit_val c"
  by (simp add: digits_val_def)

lemma digits_val_digits_of: "digits_val (digits_of n) = n"
proof (induction n rule: digits_of.induct)
  case (1 n)
  show ?case
  proof (cases "n < 10")
    case True
    then show ?thesis by (simp add: digits_of.simps [of n] digits_val_def digit_val_digit_char)
  next
    case False
    with "1.IH" show ?thesis
      by (simp add: digits_of.simps [of n] digits_val_snoc digit_val_digit_char)
  qed
qed

lemma is_space_NL: "is_space NL"
  by (simp add: is_space_def)

lemma is_space_SP: "is_space SP"
  by (simp add: is_space_def)

lemma is_digit_not_space: "is_digit c \<Longrightarrow> \<not> is_space c"
  by (auto simp add: is_digit_def is_space_def)

lemma fixed_digits_chars: "c \<in> set (fixed_digits p k) \<Longrightarrow> is_digit c \<or> c = CHR ''.''"
proof -
  assume c: "c \<in> set (fixed_digits p k)"
  define ds where "ds = replicate (Suc p - length (digits_of k)) (CHR ''0'') @ digits_of k"
  have z: "is_digit (CHR ''0'')" by (simp add: is_digit_def)
  have d: "is_digit x" if "x \<in> set ds" for x
    using that z digits_of_digits unfolding ds_def by auto
  from c have "c \<in> set ds \<or> c \<in> set (take (length ds - p) ds) \<or> c = CHR ''.''
      \<or> c \<in> set (drop (length ds - p) ds)"
    unfolding fixed_digits_def ds_def [symmetric] Let_def by (auto split: if_splits)
  then show ?thesis using d by (auto dest: in_set_takeD in_set_dropD)
qed

lemma fixed_digits_nonempty: "fixed_digits p k \<noteq> []"
  using digits_of_nonempty [of k] by (simp add: fixed_digits_def Let_def)

lemma not_space_misc:
  "\<not> is_space (CHR ''-'')" "\<not> is_space (CHR ''.'')" "\<not> is_space (CHR ''i'')"
  "\<not> is_space (CHR ''n'')" "\<not> is_space (CHR ''f'')" "\<not> is_space (CHR ''a'')"
  by (simp_all add: is_space_def)

lemma repr_f_no_space: "c \<in> set (repr_f p v) \<Longrightarrow> \<not> is_space c"
proof (cases v)
  case (Finite neg m e)
  assume "c \<in> set (repr_f p v)"
  then have "c = CHR ''-'' \<or> c \<in> set (fixed_digits p (scaled_round p m e))"
    unfolding Finite by (auto split: if_splits)
  then have "c = CHR ''-'' \<or> is_digit c \<or> c = CHR ''.''"
    using fixed_digits_chars by blast
  then show ?thesis
    using is_digit_not_space not_space_misc by blast
next
  case (Infinity neg)
  assume "c \<in> set (repr_f p v)"
  then have "c = CHR ''-'' \<or> c = CHR ''i'' \<or> c = CHR ''n'' \<or> c = CHR ''f''"
    unfolding Infinity by (auto split: if_splits)
  then show ?thesis using not_space_misc by blast
next
  case NaN
  assume "c \<in> set (repr_f p v)"
  then have "c = CHR ''n'' \<or> c = CHR ''a''"
    unfolding NaN by auto
  then show ?thesis using not_space_misc by blast
qed

lemma repr_f_nonempty: "repr_f p v \<noteq> []"
  using fixed_digits_nonempty by (cases v) auto

lemma set_ljust: "set (ljust w s) \<subseteq> insert SP (set s)"
  by (auto simp add: ljust_def)

lemma set_rjust: "set (rjust w s) \<subseteq> insert SP (set s)"
  by (auto simp add: rjust_def)

lemma fixed_width_line:
  assumes "NL \<notin> set rt" "NL \<notin> set an" "NL \<notin> set nm" "NL \<notin> set rn" "NL \<notin> set ch" "NL \<notin> set rnum"
    "NL \<notin> set sx" "NL \<notin> set sy" "NL \<notin> set sz" "NL \<notin> set so" "NL \<notin> set sb" "NL \<notin> set el"
  shows "is_line (fixed_width rt an nm rn ch rnum sx sy sz so sb el)
     \<and> last (fixed_width rt an nm rn ch rnum sx sy sz so sb el) = NL"
proof -
  define body where "body = ljust 6 rt @ rjust 5 an @ '' '' @ ljust 4 nm @ '' '' @ rjust 3 rn @ '' ''
     @ rjust 1 ch @ rjust 4 rnum @ ''    '' @ rjust 8 sx @ rjust 8 sy @ rjust 8 sz @ rjust 6 so
     @ rjust 6 sb @ ''          '' @ rjust 2 el"
  have e: "fixed_width rt an nm rn ch rnum sx sy sz so sb el = body @ [NL]"
    by (simp add: fixed_width_def body_def)
  have "NL \<notin> set body"
    unfolding body_def using assms by (simp add: ljust_def rjust_def)
  then show ?thesis unfolding e by (simp add: is_line_snoc)
qed

section \<open>What is written for a line is a line\<close>

lemma token_no_NL: "t \<in> set (split_ws s) \<Longrightarrow> NL \<notin> set t"
  using split_ws_tokens [of t s] is_space_NL by blast

lemma repr_f_no_NL: "NL \<notin> set (repr_f p v)"
  using repr_f_no_space [of NL p v] is_space_NL by blast

lemma element_of_no_NL: "NL \<notin> set (element_of (split_ws s))"
proof (cases "11 < length (split_ws s)")
  case True
  then have "split_ws s ! 11 \<in> set (split_ws s)" by simp
  then have "NL \<notin> set (split_ws s ! 11)" by (rule token_no_NL)
  with True show ?thesis by (simp add: element_of_def)
next
  case False
  then show ?thesis by (simp add: element_of_def)
qed

lemma process_line_line:
  assumes "is_line l" "process_line l = Inr s"
  shows "is_line s \<and> (last l = NL \<longrightarrow> last s = NL)"
proof (cases "reformats l")
  case False
  with assms show ?thesis by (simp add: process_line_cases)
next
  case True
  with assms(2) have f: "formatted_line (split_ws l) = Inr s" by (simp add: process_line_cases)
  from True have len: "11 \<le> length (split_ws l)" by (simp add: reformats_def)
  have n: "NL \<notin> set (split_ws l ! i)" if "i < 11" for i
  proof -
    from that len have "split_ws l ! i \<in> set (split_ws l)" by simp
    then show ?thesis by (rule token_no_NL)
  qed
  from formatted_line_InrD [OF f] obtain fx fy fz fo fb where
    s: "s = fixed_width (split_ws l ! 0) (split_ws l ! 1) (split_ws l ! 2) (split_ws l ! 3)
            (split_ws l ! 4) (split_ws l ! 5)
            (repr_f 3 fx) (repr_f 3 fy) (repr_f 3 fz) (repr_f 2 fo) (repr_f 2 fb)
            (element_of (split_ws l))"
    by blast
  show ?thesis unfolding s
    using fixed_width_line [OF n [of 0] n [of 1] n [of 2] n [of 3] n [of 4] n [of 5]
        repr_f_no_NL repr_f_no_NL repr_f_no_NL repr_f_no_NL repr_f_no_NL element_of_no_NL]
    by simp
qed

lemma lined_map_process:
  "lined ls \<Longrightarrow> map process_line ls = map Inr rs \<Longrightarrow> lined rs"
proof (induction ls arbitrary: rs)
  case Nil
  then show ?case by simp
next
  case (Cons l ls)
  from Cons.prems(2) obtain s rs' where rs: "rs = s # rs'" and s: "process_line l = Inr s"
    and m: "map process_line ls = map Inr rs'"
    by (cases rs) auto
  from Cons.prems(1) have il: "is_line l" and la: "ls \<noteq> [] \<longrightarrow> last l = NL" and li: "lined ls"
    by (simp_all add: lined_Cons)
  from process_line_line [OF il s] have "is_line s" "last l = NL \<longrightarrow> last s = NL" by simp_all
  moreover have "rs' \<noteq> [] \<longrightarrow> ls \<noteq> []" using m by auto
  ultimately show ?case unfolding rs lined_Cons using la Cons.IH [OF li m] by blast
qed

lemma run_ok_lines:
  assumes "fix_pdb_alignment inp = (out, None)"
  shows "map process_line (lines_of inp) = map Inr (lines_of out)"
proof -
  from assms have "write_lines (lines_of inp) [] = (out, None)" by (simp add: fix_pdb_alignment_def)
  from write_lines_ok [OF this] obtain rs where
    m: "map process_line (lines_of inp) = map Inr rs" and o: "out = concat rs" by auto
  from lined_map_process [OF lined_lines_of m] have "lined rs" .
  then have "lines_of out = rs" unfolding o by (rule lines_of_concat)
  with m show ?thesis by simp
qed

lemma run_ok_conv:
  assumes "map process_line (lines_of inp) = map Inr rs"
  shows "fix_pdb_alignment inp = (concat rs, None)"
  using write_lines_ok_conv [OF assms, of "[]"] by (simp add: fix_pdb_alignment_def)



section \<open>Columns\<close>

lemma length_ljust: "length (ljust w s) = max w (length s)"
  by (simp add: ljust_def)

lemma length_rjust: "length (rjust w s) = max w (length s)"
  by (simp add: rjust_def)

lemma cols_segment:
  "length pre = a - 1 \<Longrightarrow> 0 < a \<Longrightarrow> length f = Suc b - a \<Longrightarrow> cols a b (pre @ f @ post) = f"
  by (simp add: cols_def)


lemma length_fixed_digits: "0 < p \<Longrightarrow> length (fixed_digits p k) = Suc (max (Suc p) (length (digits_of k)))"
  by (auto simp add: fixed_digits_def Let_def max_def)




section \<open>Fields stand whole in the line\<close>

lemma contains_Nil: "contains s []"
  by (cases s) (simp_all add: startswith_def)

lemma contains_startswith: "startswith s t \<Longrightarrow> contains s t"
  by (cases s) (simp_all add: startswith_def)

lemma startswith_append: "startswith f t \<Longrightarrow> startswith (f @ post) t"
proof -
  assume "startswith f t"
  then have t: "take (length t) f = t" by (simp add: startswith_def)
  then have "length (take (length t) f) = length t" by simp
  then have "length t \<le> length f" by simp
  with t show ?thesis by (simp add: startswith_def)
qed

lemma contains_prefix: "contains f t \<Longrightarrow> contains (f @ post) t"
proof (induction f)
  case Nil
  then have "t = []" by simp
  then show ?case by (simp add: contains_Nil)
next
  case (Cons a f)
  from Cons.prems have "startswith (a # f) t \<or> contains f t" by simp
  then show ?case
  proof
    assume "startswith (a # f) t"
    then have "startswith ((a # f) @ post) t" by (rule startswith_append)
    then show ?thesis by simp
  next
    assume "contains f t"
    then have "contains (f @ post) t" by (rule Cons.IH)
    then show ?thesis by simp
  qed
qed

lemma contains_segment: "contains f t \<Longrightarrow> contains (pre @ f @ post) t"
  by (induction pre) (simp_all add: contains_prefix)

lemma contains_self: "contains t t"
  by (rule contains_startswith) (simp add: startswith_def)

lemma contains_ljust: "contains (ljust w s) s"
  unfolding ljust_def by (rule contains_prefix [OF contains_self])

lemma contains_rjust: "contains (rjust w s) s"
  unfolding rjust_def using contains_segment [OF contains_self, of "replicate (w - length s) SP" s "[]"] by simp

lemma fixed_width_contains:
  "contains (fixed_width rt an nm rn ch rnum sx sy sz so sb el) rt
   \<and> contains (fixed_width rt an nm rn ch rnum sx sy sz so sb el) an
   \<and> contains (fixed_width rt an nm rn ch rnum sx sy sz so sb el) nm
   \<and> contains (fixed_width rt an nm rn ch rnum sx sy sz so sb el) rn
   \<and> contains (fixed_width rt an nm rn ch rnum sx sy sz so sb el) ch
   \<and> contains (fixed_width rt an nm rn ch rnum sx sy sz so sb el) rnum
   \<and> contains (fixed_width rt an nm rn ch rnum sx sy sz so sb el) sx
   \<and> contains (fixed_width rt an nm rn ch rnum sx sy sz so sb el) sy
   \<and> contains (fixed_width rt an nm rn ch rnum sx sy sz so sb el) sz
   \<and> contains (fixed_width rt an nm rn ch rnum sx sy sz so sb el) so
   \<and> contains (fixed_width rt an nm rn ch rnum sx sy sz so sb el) sb
   \<and> contains (fixed_width rt an nm rn ch rnum sx sy sz so sb el) el"
proof -
  have e0: "fixed_width rt an nm rn ch rnum sx sy sz so sb el
      = ([]) @ ljust 6 rt @ (rjust 5 an @ '' '' @ ljust 4 nm @ '' '' @ rjust 3 rn @ '' '' @ rjust 1 ch @ rjust 4 rnum @ ''    '' @ rjust 8 sx @ rjust 8 sy @ rjust 8 sz @ rjust 6 so @ rjust 6 sb @ ''          '' @ rjust 2 el @ [NL])"
    by (simp add: fixed_width_def)
  have c0: "contains (fixed_width rt an nm rn ch rnum sx sy sz so sb el) rt"
    unfolding e0 by (rule contains_segment) (rule contains_ljust)
  have e1: "fixed_width rt an nm rn ch rnum sx sy sz so sb el
      = (ljust 6 rt) @ rjust 5 an @ ('' '' @ ljust 4 nm @ '' '' @ rjust 3 rn @ '' '' @ rjust 1 ch @ rjust 4 rnum @ ''    '' @ rjust 8 sx @ rjust 8 sy @ rjust 8 sz @ rjust 6 so @ rjust 6 sb @ ''          '' @ rjust 2 el @ [NL])"
    by (simp add: fixed_width_def)
  have c1: "contains (fixed_width rt an nm rn ch rnum sx sy sz so sb el) an"
    unfolding e1 by (rule contains_segment) (rule contains_rjust)
  have e3: "fixed_width rt an nm rn ch rnum sx sy sz so sb el
      = (ljust 6 rt @ rjust 5 an @ '' '') @ ljust 4 nm @ ('' '' @ rjust 3 rn @ '' '' @ rjust 1 ch @ rjust 4 rnum @ ''    '' @ rjust 8 sx @ rjust 8 sy @ rjust 8 sz @ rjust 6 so @ rjust 6 sb @ ''          '' @ rjust 2 el @ [NL])"
    by (simp add: fixed_width_def)
  have c3: "contains (fixed_width rt an nm rn ch rnum sx sy sz so sb el) nm"
    unfolding e3 by (rule contains_segment) (rule contains_ljust)
  have e5: "fixed_width rt an nm rn ch rnum sx sy sz so sb el
      = (ljust 6 rt @ rjust 5 an @ '' '' @ ljust 4 nm @ '' '') @ rjust 3 rn @ ('' '' @ rjust 1 ch @ rjust 4 rnum @ ''    '' @ rjust 8 sx @ rjust 8 sy @ rjust 8 sz @ rjust 6 so @ rjust 6 sb @ ''          '' @ rjust 2 el @ [NL])"
    by (simp add: fixed_width_def)
  have c5: "contains (fixed_width rt an nm rn ch rnum sx sy sz so sb el) rn"
    unfolding e5 by (rule contains_segment) (rule contains_rjust)
  have e7: "fixed_width rt an nm rn ch rnum sx sy sz so sb el
      = (ljust 6 rt @ rjust 5 an @ '' '' @ ljust 4 nm @ '' '' @ rjust 3 rn @ '' '') @ rjust 1 ch @ (rjust 4 rnum @ ''    '' @ rjust 8 sx @ rjust 8 sy @ rjust 8 sz @ rjust 6 so @ rjust 6 sb @ ''          '' @ rjust 2 el @ [NL])"
    by (simp add: fixed_width_def)
  have c7: "contains (fixed_width rt an nm rn ch rnum sx sy sz so sb el) ch"
    unfolding e7 by (rule contains_segment) (rule contains_rjust)
  have e8: "fixed_width rt an nm rn ch rnum sx sy sz so sb el
      = (ljust 6 rt @ rjust 5 an @ '' '' @ ljust 4 nm @ '' '' @ rjust 3 rn @ '' '' @ rjust 1 ch) @ rjust 4 rnum @ (''    '' @ rjust 8 sx @ rjust 8 sy @ rjust 8 sz @ rjust 6 so @ rjust 6 sb @ ''          '' @ rjust 2 el @ [NL])"
    by (simp add: fixed_width_def)
  have c8: "contains (fixed_width rt an nm rn ch rnum sx sy sz so sb el) rnum"
    unfolding e8 by (rule contains_segment) (rule contains_rjust)
  have e10: "fixed_width rt an nm rn ch rnum sx sy sz so sb el
      = (ljust 6 rt @ rjust 5 an @ '' '' @ ljust 4 nm @ '' '' @ rjust 3 rn @ '' '' @ rjust 1 ch @ rjust 4 rnum @ ''    '') @ rjust 8 sx @ (rjust 8 sy @ rjust 8 sz @ rjust 6 so @ rjust 6 sb @ ''          '' @ rjust 2 el @ [NL])"
    by (simp add: fixed_width_def)
  have c10: "contains (fixed_width rt an nm rn ch rnum sx sy sz so sb el) sx"
    unfolding e10 by (rule contains_segment) (rule contains_rjust)
  have e11: "fixed_width rt an nm rn ch rnum sx sy sz so sb el
      = (ljust 6 rt @ rjust 5 an @ '' '' @ ljust 4 nm @ '' '' @ rjust 3 rn @ '' '' @ rjust 1 ch @ rjust 4 rnum @ ''    '' @ rjust 8 sx) @ rjust 8 sy @ (rjust 8 sz @ rjust 6 so @ rjust 6 sb @ ''          '' @ rjust 2 el @ [NL])"
    by (simp add: fixed_width_def)
  have c11: "contains (fixed_width rt an nm rn ch rnum sx sy sz so sb el) sy"
    unfolding e11 by (rule contains_segment) (rule contains_rjust)
  have e12: "fixed_width rt an nm rn ch rnum sx sy sz so sb el
      = (ljust 6 rt @ rjust 5 an @ '' '' @ ljust 4 nm @ '' '' @ rjust 3 rn @ '' '' @ rjust 1 ch @ rjust 4 rnum @ ''    '' @ rjust 8 sx @ rjust 8 sy) @ rjust 8 sz @ (rjust 6 so @ rjust 6 sb @ ''          '' @ rjust 2 el @ [NL])"
    by (simp add: fixed_width_def)
  have c12: "contains (fixed_width rt an nm rn ch rnum sx sy sz so sb el) sz"
    unfolding e12 by (rule contains_segment) (rule contains_rjust)
  have e13: "fixed_width rt an nm rn ch rnum sx sy sz so sb el
      = (ljust 6 rt @ rjust 5 an @ '' '' @ ljust 4 nm @ '' '' @ rjust 3 rn @ '' '' @ rjust 1 ch @ rjust 4 rnum @ ''    '' @ rjust 8 sx @ rjust 8 sy @ rjust 8 sz) @ rjust 6 so @ (rjust 6 sb @ ''          '' @ rjust 2 el @ [NL])"
    by (simp add: fixed_width_def)
  have c13: "contains (fixed_width rt an nm rn ch rnum sx sy sz so sb el) so"
    unfolding e13 by (rule contains_segment) (rule contains_rjust)
  have e14: "fixed_width rt an nm rn ch rnum sx sy sz so sb el
      = (ljust 6 rt @ rjust 5 an @ '' '' @ ljust 4 nm @ '' '' @ rjust 3 rn @ '' '' @ rjust 1 ch @ rjust 4 rnum @ ''    '' @ rjust 8 sx @ rjust 8 sy @ rjust 8 sz @ rjust 6 so) @ rjust 6 sb @ (''          '' @ rjust 2 el @ [NL])"
    by (simp add: fixed_width_def)
  have c14: "contains (fixed_width rt an nm rn ch rnum sx sy sz so sb el) sb"
    unfolding e14 by (rule contains_segment) (rule contains_rjust)
  have e16: "fixed_width rt an nm rn ch rnum sx sy sz so sb el
      = (ljust 6 rt @ rjust 5 an @ '' '' @ ljust 4 nm @ '' '' @ rjust 3 rn @ '' '' @ rjust 1 ch @ rjust 4 rnum @ ''    '' @ rjust 8 sx @ rjust 8 sy @ rjust 8 sz @ rjust 6 so @ rjust 6 sb @ ''          '') @ rjust 2 el @ ([NL])"
    by (simp add: fixed_width_def)
  have c16: "contains (fixed_width rt an nm rn ch rnum sx sy sz so sb el) el"
    unfolding e16 by (rule contains_segment) (rule contains_rjust)
  show ?thesis
    by (intro conjI) (rule c0 c1 c3 c5 c7 c8 c10 c11 c12 c13 c14 c16)+
qed

section \<open>Rounding: a number as written reads back as it was written\<close>

lemma rnd_div_near_above:
  assumes "n * D \<le> a" "2 * (a - n * D) < D"
  shows "rnd_div a D = n"
proof -
  define r where "r = a - n * D"
  have a: "a = r + n * D" using assms(1) by (simp add: r_def)
  have r: "2 * r < D" using assms(2) by (simp add: r_def)
  then have rD: "r < D" by simp
  have q: "a div D = n" unfolding a using rD by simp
  have m: "a mod D = r" unfolding a using rD by simp
  show ?thesis unfolding rnd_div_def Let_def q m using r by simp
qed

lemma rnd_div_near_below:
  assumes "a < n * D" "2 * (n * D - a) < D"
  shows "rnd_div a D = n"
proof -
  define t where "t = n * D - a"
  have t0: "0 < t" using assms(1) by (simp add: t_def)
  have tD: "2 * t < D" using assms(2) by (simp add: t_def)
  obtain n' where n: "n = Suc n'" using assms(1) by (cases n) auto
  have a: "a = (D - t) + n' * D" using assms(1) tD unfolding t_def n by simp
  have lt: "D - t < D" using t0 tD by simp
  have q: "a div D = n'" unfolding a using lt by simp
  have m: "a mod D = D - t" unfolding a using lt by simp
  have "D < 2 * (D - t)" using tD by simp
  then show ?thesis unfolding rnd_div_def Let_def q m n by simp
qed

lemma rnd_div_bound:
  assumes "0 < d"
  shows "(rnd_div N d * d \<le> N \<and> 2 * (N - rnd_div N d * d) \<le> d)
       \<or> (N \<le> rnd_div N d * d \<and> 2 * (rnd_div N d * d - N) \<le> d)"
proof -
  define q where "q = N div d"
  define r where "r = N mod d"
  have N: "N = q * d + r" unfolding q_def r_def by simp
  have rd: "r < d" unfolding r_def using assms by simp
  consider "2 * r < d" | "d < 2 * r" | "2 * r = d" by linarith
  then show ?thesis
  proof cases
    case 1
    then have "rnd_div N d = q" unfolding rnd_div_def Let_def q_def r_def by simp
    then show ?thesis using N 1 by simp
  next
    case 2
    then have "rnd_div N d = q + 1" unfolding rnd_div_def Let_def q_def r_def by simp
    then show ?thesis using N 2 rd by (simp add: algebra_simps)
  next
    case 3
    then have "rnd_div N d = q \<or> rnd_div N d = q + 1"
      unfolding rnd_div_def Let_def q_def r_def by simp
    then show ?thesis using N 3 rd by (auto simp add: algebra_simps)
  qed
qed

lemma rnd_div_ge: "0 < d \<Longrightarrow> N div d \<le> rnd_div N d"
  by (simp add: rnd_div_def Let_def)

lemma bitlen_0: "bitlen 0 = 0"
  by (subst bitlen.simps) simp

lemma bitlen_le: "n < 2 ^ j \<Longrightarrow> bitlen n \<le> j"
proof (induction j arbitrary: n)
  case 0
  then show ?case by (simp add: bitlen_0)
next
  case (Suc j)
  show ?case
  proof (cases "n = 0")
    case True
    then show ?thesis by (simp add: bitlen_0)
  next
    case False
    from Suc.prems have "n div 2 < 2 ^ j" by simp
    from Suc.IH [OF this] False show ?thesis by (simp add: bitlen.simps [of n])
  qed
qed

lemma ilog2_ratio_le: "ilog2_ratio n d \<le> int (bitlen n)"
  by (simp add: ilog2_ratio_def Let_def)

lemma rnd_div_near:
  assumes "(n * D \<le> a \<and> 2 * (a - n * D) < D) \<or> (a \<le> n * D \<and> 2 * (n * D - a) < D)"
  shows "rnd_div a D = n"
proof (cases "n * D \<le> a")
  case True
  with assms have "2 * (a - n * D) < D" by auto
  with True show ?thesis by (rule rnd_div_near_above)
next
  case False
  with assms have "2 * (n * D - a) < D" by auto
  moreover from False have "a < n * D" by simp
  ultimately show ?thesis by (intro rnd_div_near_below)
qed

lemma double_roundtrip:
  assumes "0 < n" "n < 2 ^ 24" "0 < d" "d \<le> 1000" "d = 10 ^ p"
  shows "\<exists>m e. double_of_ratio neg n d = Finite neg m e \<and> scaled_round p m e = n"
proof -
  define e where "e = max (ilog2_ratio n d - 52) (- 1074)"
  have "int (bitlen n) \<le> 24" using bitlen_le [OF assms(2)] by simp
  then have "ilog2_ratio n d \<le> 24" using ilog2_ratio_le [of n d] by linarith
  then have e_le: "e \<le> - 28" unfolding e_def by simp
  define E where "E = nat (- e)"
  have E: "28 \<le> E" and eE: "e = - int E" using e_le unfolding E_def by simp_all
  have "(2::nat) ^ 28 \<le> 2 ^ E" using E by (intro power_increasing) simp_all
  then have big: "(268435456::nat) \<le> 2 ^ E" by simp
  obtain E' where E': "E = Suc E'" using E by (cases E) auto
  have E'27: "27 \<le> E'" using E E' by simp
  have "(2::nat) ^ 27 \<le> 2 ^ E'" using E'27 by (intro power_increasing) simp_all
  then have big': "(134217728::nat) \<le> 2 ^ E'" by simp
  have pE: "(2::nat) ^ E = 2 * 2 ^ E'" unfolding E' by simp
  define N where "N = n * 2 ^ E"
  define m where "m = rnd_div N d"
  have "d \<le> N"
  proof -
    have "d \<le> 1 * 2 ^ E" using assms(4) big by simp
    also have "\<dots> \<le> n * 2 ^ E" using assms(1) by (intro mult_right_mono) simp_all
    finally show ?thesis unfolding N_def .
  qed
  then have "0 < N div d" using assms(3) by (simp add: div_greater_zero_iff)
  with rnd_div_ge [OF assms(3), of N] have m_pos: "0 < m" unfolding m_def by linarith
  have bound: "(m * d \<le> N \<and> 2 * (N - m * d) \<le> d) \<or> (N \<le> m * d \<and> 2 * (m * d - N) \<le> d)"
    unfolding m_def by (rule rnd_div_bound [OF assms(3)])
  have en: "\<not> 0 \<le> e" using e_le by simp
  have dr: "double_of_ratio neg n d =
      (if m = 2 ^ 53 then Finite neg (2 ^ 52) (e + 1) else Finite neg m e)"
  proof -
    have a: "(if 0 \<le> e then rnd_div n (d * 2 ^ nat e) else rnd_div (n * 2 ^ nat (- e)) d) = m"
      using en unfolding m_def N_def E_def by simp
    have b: "\<not> 971 < e + 1" "\<not> 971 < e" using e_le by simp_all
    show ?thesis
      unfolding double_of_ratio_def e_def [symmetric] Let_def a
      using assms(1) m_pos b by simp
  qed
  show ?thesis
  proof (cases "m = 2 ^ 53")
    case True
    have ne: "\<not> 0 \<le> e + 1" using e_le by simp
    have nE: "nat (- e - 1) = E'" unfolding eE E' by simp
    have sr: "scaled_round p (2 ^ 52) (e + 1) = rnd_div (2 ^ 52 * d) (2 ^ E')"
      unfolding scaled_round_def using ne by (simp add: nE assms(5))
    have md: "m * d = 2 * (2 ^ 52 * d)" unfolding True by simp
    have Nn: "N = 2 * (n * 2 ^ E')" unfolding N_def pE by simp
    have "(n * 2 ^ E' \<le> 2 ^ 52 * d \<and> 2 * (2 ^ 52 * d - n * 2 ^ E') < 2 ^ E')
        \<or> (2 ^ 52 * d \<le> n * 2 ^ E' \<and> 2 * (n * 2 ^ E' - 2 ^ 52 * d) < 2 ^ E')"
      using bound assms(4) big' unfolding md Nn by linarith
    then have "rnd_div (2 ^ 52 * d) (2 ^ E') = n" by (rule rnd_div_near)
    with sr dr True show ?thesis by simp
  next
    case False
    have sr: "scaled_round p m e = rnd_div (m * d) (2 ^ E)"
      unfolding scaled_round_def using en by (simp add: E_def assms(5))
    have "(n * 2 ^ E \<le> m * d \<and> 2 * (m * d - n * 2 ^ E) < 2 ^ E)
        \<or> (m * d \<le> n * 2 ^ E \<and> 2 * (n * 2 ^ E - m * d) < 2 ^ E)"
      using bound assms(4) big unfolding N_def by linarith
    then have "rnd_div (m * d) (2 ^ E) = n" by (rule rnd_div_near)
    with sr dr False show ?thesis by simp
  qed
qed

lemma strip_underscores_id:
  "CHR ''_'' \<notin> set s \<Longrightarrow> prev \<noteq> CHR ''_'' \<Longrightarrow> strip_underscores prev s = Some s"
  by (induction s arbitrary: prev) auto

lemma strip_id:
  assumes "\<forall>c\<in>set s. \<not> is_float_space c"
  shows "strip s = s"
proof -
  have d: "dropWhile is_float_space t = t" if "\<forall>c\<in>set t. \<not> is_float_space c" for t
    using that by (cases t) auto
  have "dropWhile is_float_space s = s" using assms by (rule d)
  moreover have "dropWhile is_float_space (rev s) = rev s" using assms by (intro d) simp
  ultimately show ?thesis by (simp add: strip_def)
qed

lemma digits_val_append: "digits_val (xs @ ys) = foldl (\<lambda>a c. 10 * a + digit_val c) (digits_val xs) ys"
  by (simp add: digits_val_def)

lemma digits_val_zeros: "digits_val (replicate z (CHR ''0'')) = 0"
proof (induction z)
  case 0
  show ?case by (simp add: digits_val_def)
next
  case (Suc z)
  have r: "replicate (Suc z) (CHR ''0'') = replicate z (CHR ''0'') @ [CHR ''0'']"
    by (simp add: replicate_append_same)
  show ?case unfolding r digits_val_snoc Suc.IH by (simp add: digit_val_def)
qed

lemma digits_val_leading_zeros: "digits_val (replicate z (CHR ''0'') @ ds) = digits_val ds"
  by (simp add: digits_val_append digits_val_zeros) (simp add: digits_val_def)

lemma digits_of_bound: "n < 10 ^ length (digits_of n)"
proof (induction n rule: digits_of.induct)
  case (1 n)
  show ?case
  proof (cases "n < 10")
    case True
    then show ?thesis by (simp add: digits_of.simps [of n])
  next
    case False
    from "1.IH" [OF False] have "n div 10 < 10 ^ length (digits_of (n div 10))" .
    then have "n < 10 * 10 ^ length (digits_of (n div 10))" by simp
    with False show ?thesis by (simp add: digits_of.simps [of n])
  qed
qed

lemma is_digit_not_point: "is_digit c \<Longrightarrow> c \<noteq> CHR ''.''"
  by (auto simp add: is_digit_def)

lemma parse_decimal_point:
  assumes "list_all is_digit ip" "list_all is_digit fp" "ip \<noteq> []"
  shows "parse_decimal (ip @ CHR ''.'' # fp) = Some (digits_val (ip @ fp), - int (length fp))"
proof -
  have np: "\<not> is_digit (CHR ''.'')" by (simp add: is_digit_def)
  have ai: "\<And>x. x \<in> set ip \<Longrightarrow> is_digit x" using assms(1) by (simp add: list_all_iff)
  have af: "\<forall>x\<in>set fp. is_digit x" using assms(2) by (simp add: list_all_iff)
  have t1: "takeWhile is_digit (ip @ CHR ''.'' # fp) = ip"
    using takeWhile_append2 [of ip is_digit "CHR ''.'' # fp", OF ai] np by simp
  have d1: "dropWhile is_digit (ip @ CHR ''.'' # fp) = CHR ''.'' # fp"
    using dropWhile_append2 [of ip is_digit "CHR ''.'' # fp", OF ai] np by simp
  have t2: "takeWhile is_digit fp = fp" using af by (simp add: takeWhile_eq_all_conv)
  have d2: "dropWhile is_digit fp = []" using af by (simp add: dropWhile_eq_Nil_conv)
  show ?thesis
    unfolding parse_decimal_def t1 d1 Let_def
    using assms(3) by (simp add: t2 d2 parse_exponent_def)
qed

lemma fixed_digits_split:
  assumes "0 < p"
  shows "\<exists>ip fp. fixed_digits p k = ip @ CHR ''.'' # fp \<and> ip \<noteq> [] \<and> list_all is_digit ip
     \<and> list_all is_digit fp \<and> length fp = p \<and> digits_val (ip @ fp) = k"
proof -
  define ds where "ds = replicate (Suc p - length (digits_of k)) (CHR ''0'') @ digits_of k"
  have z: "is_digit (CHR ''0'')" by (simp add: is_digit_def)
  have d: "list_all is_digit ds"
    unfolding ds_def using z digits_of_digits by (auto simp add: list_all_iff)
  have len: "p < length ds" unfolding ds_def by auto
  have v: "digits_val ds = k"
    unfolding ds_def by (simp add: digits_val_leading_zeros digits_val_digits_of)
  have f: "fixed_digits p k = take (length ds - p) ds @ CHR ''.'' # drop (length ds - p) ds"
    using assms unfolding fixed_digits_def ds_def [symmetric] Let_def by simp
  have 1: "take (length ds - p) ds \<noteq> []" using len by auto
  have 2: "list_all is_digit (take (length ds - p) ds)"
    using d by (auto simp add: list_all_iff dest: in_set_takeD)
  have 3: "list_all is_digit (drop (length ds - p) ds)"
    using d by (auto simp add: list_all_iff dest: in_set_dropD)
  have 4: "length (drop (length ds - p) ds) = p" using len by simp
  have 5: "digits_val (take (length ds - p) ds @ drop (length ds - p) ds) = k"
    using v by simp
  from f 1 2 3 4 5 show ?thesis by blast
qed

lemma is_digit_cases:
  assumes "is_digit c"
  shows "c = CHR ''0'' \<or> c = CHR ''1'' \<or> c = CHR ''2'' \<or> c = CHR ''3'' \<or> c = CHR ''4''
     \<or> c = CHR ''5'' \<or> c = CHR ''6'' \<or> c = CHR ''7'' \<or> c = CHR ''8'' \<or> c = CHR ''9''"
  using assms unfolding is_digit_def by simp

lemma lower_char_digit: "is_digit c \<Longrightarrow> lower_char c = c"
  by (drule is_digit_cases, elim disjE) (simp_all add: lower_char_def)

lemma is_digit_not_misc:
  assumes "is_digit c"
  shows "c \<noteq> CHR ''-''" "c \<noteq> CHR ''+''" "c \<noteq> CHR ''_''" "c \<noteq> CHR ''i''" "c \<noteq> CHR ''n''"
    "\<not> is_float_space c"
  by (insert is_digit_cases [OF assms], elim disjE, simp_all add: is_float_space_def)+

lemma float_of_string_digits:
  assumes "0 < p"
  shows "float_of_string ((if neg then ''-'' else []) @ fixed_digits p k)
     = Some (double_of_ratio neg k (10 ^ p))"
proof -
  from fixed_digits_split [OF assms, of k] obtain ip fp where
    f: "fixed_digits p k = ip @ CHR ''.'' # fp" and ne: "ip \<noteq> []" and di: "list_all is_digit ip"
    and df: "list_all is_digit fp" and lf: "length fp = p" and v: "digits_val (ip @ fp) = k"
    by blast
  obtain c ip' where ip: "ip = c # ip'" using ne by (cases ip) auto
  have dc: "is_digit c" using di unfolding ip by simp
  define s where "s = (if neg then ''-'' else []) @ fixed_digits p k"
  have chars: "is_digit x \<or> x = CHR ''.'' \<or> x = CHR ''-''" if "x \<in> set s" for x
  proof -
    from that have "x = CHR ''-'' \<or> x \<in> set (fixed_digits p k)"
      unfolding s_def by (cases neg) simp_all
    then show ?thesis using fixed_digits_chars [of x p k] by blast
  qed
  have m: "CHR ''.'' \<noteq> CHR ''_''" "CHR ''-'' \<noteq> CHR ''_''"
    "\<not> is_float_space (CHR ''.'')" "\<not> is_float_space (CHR ''-'')"
    by (simp_all add: is_float_space_def)
  have nu: "CHR ''_'' \<notin> set s"
    using chars [of "CHR ''_''"] is_digit_not_misc(3) [of "CHR ''_''"] m by blast
  have su: "strip_underscores (CHR 0x00) s = Some s"
    using nu by (intro strip_underscores_id) simp_all
  have "\<forall>x\<in>set s. \<not> is_float_space x"
    using chars is_digit_not_misc(6) m by blast
  then have st: "strip s = s" by (rule strip_id)
  have ts: "take_sign s = (neg, fixed_digits p k)"
    unfolding s_def f ip using is_digit_not_misc(1,2) [OF dc] by simp
  have lc: "map lower_char (fixed_digits p k) = c # map lower_char (ip' @ CHR ''.'' # fp)"
    unfolding f ip using lower_char_digit [OF dc] by simp
  have ni: "map lower_char (fixed_digits p k) \<noteq> ''inf''"
    "map lower_char (fixed_digits p k) \<noteq> ''infinity''"
    "map lower_char (fixed_digits p k) \<noteq> ''nan''"
    unfolding lc using is_digit_not_misc(4,5) [OF dc] by simp_all
  have pd: "parse_decimal (fixed_digits p k) = Some (k, - int p)"
    unfolding f using parse_decimal_point [OF di df ne] v lf by simp
  have "float_of_string s = Some (double_of_ratio neg k (10 ^ p))"
    using assms by (simp add: float_of_string_def su st ts ni pd)
  then show ?thesis unfolding s_def .
qed

lemma float_of_string_inf_nan:
  "float_of_string ''inf'' = Some (Infinity False)"
  "float_of_string ''-inf'' = Some (Infinity True)"
  "float_of_string ''nan'' = Some NaN"
  by (simp_all add: eval_defs)

lemma repr_f_roundtrip:
  assumes "0 < p" "p \<le> 3" "length (repr_f p v) \<le> 8"
  shows "\<exists>v'. float_of_string (repr_f p v) = Some v' \<and> repr_f p v' = repr_f p v"
proof (cases v)
  case (Finite neg m e)
  define k where "k = scaled_round p m e"
  have r: "repr_f p v = (if neg then ''-'' else []) @ fixed_digits p k"
    unfolding Finite k_def by simp
  have fs: "float_of_string (repr_f p v) = Some (double_of_ratio neg k (10 ^ p))"
    unfolding r by (rule float_of_string_digits [OF assms(1)])
  show ?thesis
  proof (cases "k = 0")
    case True
    have "double_of_ratio neg k (10 ^ p) = Finite neg 0 0"
      unfolding True by (simp add: double_of_ratio_def)
    moreover have "repr_f p (Finite neg 0 0) = repr_f p v"
      unfolding r True by (simp add: scaled_round_def)
    ultimately show ?thesis using fs by simp
  next
    case False
    have "length (fixed_digits p k) \<le> 8" using assms(3) unfolding r by simp
    then have "length (digits_of k) \<le> 7"
      unfolding length_fixed_digits [OF assms(1)] by simp
    then have "(10::nat) ^ length (digits_of k) \<le> 10 ^ 7"
      by (intro power_increasing) simp_all
    with digits_of_bound [of k] have "k < 10 ^ 7" by linarith
    then have k24: "k < 2 ^ 24" by simp
    have "(10::nat) ^ p \<le> 10 ^ 3" using assms(2) by (intro power_increasing) simp_all
    then have d: "(10::nat) ^ p \<le> 1000" by simp
    from False have kp: "0 < k" by simp
    from double_roundtrip [OF kp k24 _ d refl, of neg] obtain m' e' where
      dr: "double_of_ratio neg k (10 ^ p) = Finite neg m' e'" and sr: "scaled_round p m' e' = k"
      by auto
    have "repr_f p (Finite neg m' e') = repr_f p v"
      unfolding r by (simp add: sr)
    with fs dr show ?thesis by simp
  qed
next
  case (Infinity neg)
  then show ?thesis by (cases neg) (simp_all add: float_of_string_inf_nan)
next
  case NaN
  then show ?thesis by (simp add: float_of_string_inf_nan)
qed

section \<open>Reading the fixed-width line again\<close>

lemma tok_step:
  assumes "is_token t" "ws \<noteq> []" "\<forall>c\<in>set ws. is_space c"
  shows "split_ws (t @ ws @ rest) = t # split_ws rest"
proof -
  obtain c ws' where ws: "ws = c # ws'" using assms(2) by (cases ws) auto
  have c: "is_space c" using assms(3) unfolding ws by simp
  have "split_ws (t @ c # (ws' @ rest)) = t # split_ws (c # (ws' @ rest))"
    using assms(1) c by (intro split_ws_token) (simp_all add: is_token_def)
  also have "c # (ws' @ rest) = ws @ rest" unfolding ws by simp
  also have "split_ws (ws @ rest) = split_ws rest"
    using assms(3) by (rule split_ws_spaces)
  finally show ?thesis unfolding ws by simp
qed

lemma tok_end:
  assumes "\<forall>c\<in>set el. \<not> is_space c"
  shows "split_ws (el @ [NL]) = (if el = [] then [] else [el])"
proof (cases "el = []")
  case True
  then show ?thesis by (simp add: is_space_NL)
next
  case False
  have "split_ws (el @ [NL] @ []) = el # split_ws []"
    using False assms by (intro tok_step) (simp_all add: is_token_def is_space_NL)
  with False show ?thesis by simp
qed

lemma split_layout:
  assumes t: "is_token rt" "is_token an" "is_token nm" "is_token rn" "is_token ch" "is_token rnum"
      "is_token sx" "is_token sy" "is_token sz" "is_token so" "is_token sb"
    and el: "\<forall>c\<in>set el. \<not> is_space c"
    and n: "W1 \<noteq> []" "W2 \<noteq> []" "W3 \<noteq> []" "W4 \<noteq> []" "W5 \<noteq> []" "W6 \<noteq> []" "W7 \<noteq> []"
      "W8 \<noteq> []" "W9 \<noteq> []" "W10 \<noteq> []" "W11 \<noteq> []"
    and w: "\<forall>c\<in>set W1. is_space c" "\<forall>c\<in>set W2. is_space c" "\<forall>c\<in>set W3. is_space c"
      "\<forall>c\<in>set W4. is_space c" "\<forall>c\<in>set W5. is_space c" "\<forall>c\<in>set W6. is_space c"
      "\<forall>c\<in>set W7. is_space c" "\<forall>c\<in>set W8. is_space c" "\<forall>c\<in>set W9. is_space c"
      "\<forall>c\<in>set W10. is_space c" "\<forall>c\<in>set W11. is_space c"
  shows "split_ws (rt @ W1 @ an @ W2 @ nm @ W3 @ rn @ W4 @ ch @ W5 @ rnum @ W6 @ sx @ W7 @ sy
      @ W8 @ sz @ W9 @ so @ W10 @ sb @ W11 @ el @ [NL])
    = [rt, an, nm, rn, ch, rnum, sx, sy, sz, so, sb] @ (if el = [] then [] else [el])"
  unfolding tok_step [OF t(1) n(1) w(1)] tok_step [OF t(2) n(2) w(2)] tok_step [OF t(3) n(3) w(3)]
    tok_step [OF t(4) n(4) w(4)] tok_step [OF t(5) n(5) w(5)] tok_step [OF t(6) n(6) w(6)]
    tok_step [OF t(7) n(7) w(7)] tok_step [OF t(8) n(8) w(8)] tok_step [OF t(9) n(9) w(9)]
    tok_step [OF t(10) n(10) w(10)] tok_step [OF t(11) n(11) w(11)] tok_end [OF el]
  by simp

lemma spaces_replicate: "\<forall>c\<in>set (replicate n SP). is_space c"
  by (simp add: is_space_SP)

lemma split_fixed_width:
  assumes t: "is_token rt" "is_token an" "is_token nm" "is_token rn" "is_token ch" "is_token rnum"
      "is_token sx" "is_token sy" "is_token sz" "is_token so" "is_token sb"
    and el: "\<forall>c\<in>set el. \<not> is_space c"
    and s: "length rt < 6 \<or> length an < 5" "length rnum < 4" "length sy < 8" "length sz < 8"
      "length so < 6" "length sb < 6"
  shows "split_ws (fixed_width rt an nm rn ch rnum sx sy sz so sb el)
    = [rt, an, nm, rn, ch, rnum, sx, sy, sz, so, sb] @ (if el = [] then [] else [el])"
proof -
  define W1 where "W1 = replicate (6 - length rt) SP @ replicate (5 - length an) SP"
  define W2 where "W2 = [SP]"
  define W3 where "W3 = replicate (4 - length nm) SP @ [SP] @ replicate (3 - length rn) SP"
  define W4 where "W4 = [SP] @ replicate (1 - length ch) SP"
  define W5 where "W5 = replicate (4 - length rnum) SP"
  define W6 where "W6 = [SP, SP, SP, SP] @ replicate (8 - length sx) SP"
  define W7 where "W7 = replicate (8 - length sy) SP"
  define W8 where "W8 = replicate (8 - length sz) SP"
  define W9 where "W9 = replicate (6 - length so) SP"
  define W10 where "W10 = replicate (6 - length sb) SP"
  define W11 where "W11 = [SP, SP, SP, SP, SP, SP, SP, SP, SP, SP] @ replicate (2 - length el) SP"
  note Ws = W1_def W2_def W3_def W4_def W5_def W6_def W7_def W8_def W9_def W10_def W11_def
  have n: "W1 \<noteq> []" "W2 \<noteq> []" "W3 \<noteq> []" "W4 \<noteq> []" "W5 \<noteq> []" "W6 \<noteq> []" "W7 \<noteq> []"
      "W8 \<noteq> []" "W9 \<noteq> []" "W10 \<noteq> []" "W11 \<noteq> []"
    unfolding Ws using s by auto
  have w: "\<forall>c\<in>set W1. is_space c" "\<forall>c\<in>set W2. is_space c" "\<forall>c\<in>set W3. is_space c"
      "\<forall>c\<in>set W4. is_space c" "\<forall>c\<in>set W5. is_space c" "\<forall>c\<in>set W6. is_space c"
      "\<forall>c\<in>set W7. is_space c" "\<forall>c\<in>set W8. is_space c" "\<forall>c\<in>set W9. is_space c"
      "\<forall>c\<in>set W10. is_space c" "\<forall>c\<in>set W11. is_space c"
    unfolding Ws using is_space_SP by auto
  have e: "fixed_width rt an nm rn ch rnum sx sy sz so sb el
      = rt @ W1 @ an @ W2 @ nm @ W3 @ rn @ W4 @ ch @ W5 @ rnum @ W6 @ sx @ W7 @ sy
      @ W8 @ sz @ W9 @ so @ W10 @ sb @ W11 @ el @ [NL]"
    unfolding Ws fixed_width_def ljust_def rjust_def by simp
  show ?thesis unfolding e by (rule split_layout [OF t el n w])
qed

lemma is_token_part: "i < length (split_ws l) \<Longrightarrow> is_token (split_ws l ! i)"
  using split_ws_tokens [of "split_ws l ! i" l] by (simp add: is_token_def)

lemma is_token_repr_f: "is_token (repr_f p v)"
  using repr_f_nonempty [of p v] repr_f_no_space [of _ p v] by (auto simp add: is_token_def)

lemma element_of_no_space: "\<forall>c\<in>set (element_of (split_ws l)). \<not> is_space c"
proof (cases "11 < length (split_ws l)")
  case True
  then have "is_token (split_ws l ! 11)" by (rule is_token_part)
  with True show ?thesis by (simp add: element_of_def is_token_def)
next
  case False
  then show ?thesis by (simp add: element_of_def)
qed

lemma startswith_fixed_width:
  assumes "startswith rt p"
  shows "startswith (fixed_width rt an nm rn ch rnum sx sy sz so sb el) p"
proof -
  have "fixed_width rt an nm rn ch rnum sx sy sz so sb el = rt @ drop (length rt) (fixed_width rt an nm rn ch rnum sx sy sz so sb el)"
    by (simp add: fixed_width_def ljust_def)
  moreover have "startswith (rt @ drop (length rt) (fixed_width rt an nm rn ch rnum sx sy sz so sb el)) p"
    using assms by (rule startswith_append)
  ultimately show ?thesis by simp
qed

lemma fixed_width_fixed_point:
  assumes t: "is_token rt" "is_token an" "is_token nm" "is_token rn" "is_token ch" "is_token rnum"
    and el: "\<forall>c\<in>set el. \<not> is_space c"
    and st: "startswith rt ''ATOM'' \<or> startswith rt ''HETATM''"
    and s: "length rt < 6 \<or> length an < 5" "length rnum < 4"
      "length (repr_f 3 fx) \<le> 8" "length (repr_f 3 fy) < 8" "length (repr_f 3 fz) < 8"
      "length (repr_f 2 fo) < 6" "length (repr_f 2 fb) < 6"
  shows "process_line (fixed_width rt an nm rn ch rnum (repr_f 3 fx) (repr_f 3 fy) (repr_f 3 fz)
            (repr_f 2 fo) (repr_f 2 fb) el)
     = Inr (fixed_width rt an nm rn ch rnum (repr_f 3 fx) (repr_f 3 fy) (repr_f 3 fz)
            (repr_f 2 fo) (repr_f 2 fb) el)"
proof -
  define out where "out = fixed_width rt an nm rn ch rnum (repr_f 3 fx) (repr_f 3 fy) (repr_f 3 fz)
            (repr_f 2 fo) (repr_f 2 fb) el"
  define parts where "parts = [rt, an, nm, rn, ch, rnum, repr_f 3 fx, repr_f 3 fy, repr_f 3 fz,
      repr_f 2 fo, repr_f 2 fb] @ (if el = [] then [] else [el])"
  have sp: "split_ws out = parts"
    unfolding out_def parts_def
    by (rule split_fixed_width [OF t is_token_repr_f is_token_repr_f is_token_repr_f
          is_token_repr_f is_token_repr_f el s(1,2,4,5,6,7)])
  have len: "11 \<le> length parts" unfolding parts_def by simp
  have nth: "parts ! 0 = rt" "parts ! 1 = an" "parts ! 2 = nm" "parts ! 3 = rn" "parts ! 4 = ch"
    "parts ! 5 = rnum" "parts ! 6 = repr_f 3 fx" "parts ! 7 = repr_f 3 fy" "parts ! 8 = repr_f 3 fz"
    "parts ! 9 = repr_f 2 fo" "parts ! 10 = repr_f 2 fb"
    unfolding parts_def by simp_all
  have elp: "element_of parts = el"
    unfolding parts_def element_of_def by simp
  from repr_f_roundtrip [of 3 fx] s(3) obtain fx' where
    x: "float_of_string (repr_f 3 fx) = Some fx'" "repr_f 3 fx' = repr_f 3 fx" by auto
  from repr_f_roundtrip [of 3 fy] s(4) obtain fy' where
    y: "float_of_string (repr_f 3 fy) = Some fy'" "repr_f 3 fy' = repr_f 3 fy" by auto
  from repr_f_roundtrip [of 3 fz] s(5) obtain fz' where
    z: "float_of_string (repr_f 3 fz) = Some fz'" "repr_f 3 fz' = repr_f 3 fz" by auto
  from repr_f_roundtrip [of 2 fo] s(6) obtain fo' where
    o: "float_of_string (repr_f 2 fo) = Some fo'" "repr_f 2 fo' = repr_f 2 fo" by auto
  from repr_f_roundtrip [of 2 fb] s(7) obtain fb' where
    b: "float_of_string (repr_f 2 fb) = Some fb'" "repr_f 2 fb' = repr_f 2 fb" by auto
  have g: "float_of_string (parts ! 6) = Some fx'" "float_of_string (parts ! 7) = Some fy'"
    "float_of_string (parts ! 8) = Some fz'" "float_of_string (parts ! 9) = Some fo'"
    "float_of_string (parts ! 10) = Some fb'"
    unfolding nth by (rule x(1) y(1) z(1) o(1) b(1))+
  have f: "formatted_line parts = Inr out"
    unfolding formatted_line_fixed_width [OF g] nth elp x(2) y(2) z(2) o(2) b(2) out_def ..
  have "startswith out ''ATOM'' \<or> startswith out ''HETATM''"
    using st unfolding out_def by (auto intro: startswith_fixed_width)
  then have "process_line out = formatted_line (split_ws out)"
    using len unfolding sp [symmetric] by (simp add: process_line_def)
  with f sp show ?thesis unfolding out_def by simp
qed

lemma process_line_fixed_point:
  assumes "process_line l = Inr s" "reformats l \<longrightarrow> separated l"
  shows "process_line s = Inr s"
proof (cases "reformats l")
  case False
  with assms(1) show ?thesis by (simp add: process_line_cases)
next
  case True
  with assms(2) have sep: "separated l" by simp
  from True assms(1) have f: "formatted_line (split_ws l) = Inr s" by (simp add: process_line_cases)
  from True have len: "11 \<le> length (split_ws l)"
    and pre: "startswith l ''ATOM'' \<or> startswith l ''HETATM''" by (simp_all add: reformats_def)
  from formatted_line_InrD [OF f] obtain fx fy fz fo fb where
    g: "float_of_string (split_ws l ! 6) = Some fx" "float_of_string (split_ws l ! 7) = Some fy"
      "float_of_string (split_ws l ! 8) = Some fz" "float_of_string (split_ws l ! 9) = Some fo"
      "float_of_string (split_ws l ! 10) = Some fb"
    and s: "s = fixed_width (split_ws l ! 0) (split_ws l ! 1) (split_ws l ! 2) (split_ws l ! 3)
            (split_ws l ! 4) (split_ws l ! 5)
            (repr_f 3 fx) (repr_f 3 fy) (repr_f 3 fz) (repr_f 2 fo) (repr_f 2 fb)
            (element_of (split_ws l))"
    by blast
  have t: "is_token (split_ws l ! 0)" "is_token (split_ws l ! 1)" "is_token (split_ws l ! 2)"
    "is_token (split_ws l ! 3)" "is_token (split_ws l ! 4)" "is_token (split_ws l ! 5)"
    using len by (auto intro!: is_token_part)
  have a: "\<forall>c\<in>set ''ATOM''. \<not> is_space c" by (simp add: is_space_def)
  have h: "\<forall>c\<in>set ''HETATM''. \<not> is_space c" by (simp add: is_space_def)
  have hd0: "hd (split_ws l) = split_ws l ! 0"
    using len by (cases "split_ws l") simp_all
  have st: "startswith (split_ws l ! 0) ''ATOM'' \<or> startswith (split_ws l ! 0) ''HETATM''"
    using pre split_ws_first [of l "''ATOM''", OF _ _ a] split_ws_first [of l "''HETATM''", OF _ _ h]
    unfolding hd0 by auto
  have w: "length (split_ws l ! 0) < 6 \<or> length (split_ws l ! 1) < 5" "length (split_ws l ! 5) < 4"
      "length (repr_f 3 fx) \<le> 8" "length (repr_f 3 fy) < 8" "length (repr_f 3 fz) < 8"
      "length (repr_f 2 fo) < 6" "length (repr_f 2 fb) < 6"
    using sep unfolding separated_def num_width_def g by simp_all
  show ?thesis
    unfolding s by (rule fixed_width_fixed_point [OF t element_of_no_space st w])
qed

lemma map_process_fixed_point:
  assumes "map process_line ls = map Inr rs" "\<forall>l\<in>set ls. reformats l \<longrightarrow> separated l"
  shows "map process_line rs = map Inr rs"
  using assms
proof (induction ls arbitrary: rs)
  case Nil
  then show ?case by simp
next
  case (Cons l ls)
  from Cons.prems(1) obtain s rs' where rs: "rs = s # rs'" and s: "process_line l = Inr s"
    and m: "map process_line ls = map Inr rs'"
    by (cases rs) auto
  from Cons.prems(2) have "reformats l \<longrightarrow> separated l" by simp
  with s have "process_line s = Inr s" by (rule process_line_fixed_point)
  moreover from Cons.prems(2) have "\<forall>l\<in>set ls. reformats l \<longrightarrow> separated l" by simp
  with m have "map process_line rs' = map Inr rs'" by (rule Cons.IH)
  ultimately show ?case unfolding rs by simp
qed

lemma run_fixed_point:
  assumes "fix_pdb_alignment inp = (out, None)"
    and "\<forall>l\<in>set (lines_of inp). reformats l \<longrightarrow> separated l"
  shows "fix_pdb_alignment out = (out, None)"
proof -
  have m: "map process_line (lines_of inp) = map Inr (lines_of out)"
    using assms(1) by (rule run_ok_lines)
  then have "map process_line (lines_of out) = map Inr (lines_of out)"
    using assms(2) by (rule map_process_fixed_point)
  then have "fix_pdb_alignment out = (concat (lines_of out), None)"
    by (rule run_ok_conv)
  then show ?thesis by (simp add: concat_lines_of)
qed


section \<open>The claims\<close>

text \<open>
  C1, as amended. A line is reformatted exactly when the line itself begins with the
  characters \<^verbatim>\<open>ATOM\<close> or \<^verbatim>\<open>HETATM\<close> and splits into at least 11 parts; every other line is
  copied unchanged. The test is a prefix test on the raw line, not a comparison of the
  first part: the first part of a reformatted line begins with \<^verbatim>\<open>ATOM\<close> or \<^verbatim>\<open>HETATM\<close> and may
  be longer, and the line starts with it (no white space before it).
\<close>

theorem reformatted_iff_line_prefix:
  "process_line line =
     (if (startswith line ''ATOM'' \<or> startswith line ''HETATM'') \<and> 11 \<le> length (split_ws line)
      then formatted_line (split_ws line) else Inr line)
   \<and> ((startswith line ''ATOM'' \<or> startswith line ''HETATM'') \<longrightarrow>
        split_ws line \<noteq> []
        \<and> (startswith (hd (split_ws line)) ''ATOM'' \<or> startswith (hd (split_ws line)) ''HETATM'')
        \<and> startswith line (hd (split_ws line)))"
proof -
  have a: "\<forall>c\<in>set ''ATOM''. \<not> is_space c" by (simp add: is_space_def)
  have h: "\<forall>c\<in>set ''HETATM''. \<not> is_space c" by (simp add: is_space_def)
  have "split_ws line \<noteq> [] \<and> startswith (hd (split_ws line)) ''ATOM''
      \<and> startswith line (hd (split_ws line))" if "startswith line ''ATOM''"
    using split_ws_first [OF that _ a] by simp
  moreover have "split_ws line \<noteq> [] \<and> startswith (hd (split_ws line)) ''HETATM''
      \<and> startswith line (hd (split_ws line))" if "startswith line ''HETATM''"
    using split_ws_first [OF that _ h] by simp
  ultimately show ?thesis
    unfolding process_line_def Let_def by (cases "startswith line ''ATOM''") auto
qed

theorem reformatted_iff_line_prefix_witness:
  "startswith ''HETATM 1234 CA  HOH B 12 -1.5 2.25 3 0.5 99.9'' ''HETATM''
   \<and> hd (split_ws ''HETATM 1234 CA  HOH B 12 -1.5 2.25 3 0.5 99.9'') = ''HETATM''
   \<and> process_line ''HETATM 1234 CA  HOH B 12 -1.5 2.25 3 0.5 99.9''
       = formatted_line (split_ws ''HETATM 1234 CA  HOH B 12 -1.5 2.25 3 0.5 99.9'')"
  using reformatted_iff_line_prefix [of "''HETATM 1234 CA  HOH B 12 -1.5 2.25 3 0.5 99.9''"]
  by (simp add: startswith_def is_space_def)

text \<open>
  C1 as stated fails in both directions. The first part of the line \<^verbatim>\<open>ATOMIC 1 N ...\<close> is
  \<^verbatim>\<open>ATOMIC\<close>, neither \<^verbatim>\<open>ATOM\<close> nor \<^verbatim>\<open>HETATM\<close>, and the line is reformatted, not copied. The
  first part of a line that begins with a space and then \<^verbatim>\<open>ATOM\<close> is exactly \<^verbatim>\<open>ATOM\<close>, the
  line has 11 parts, and it is copied unchanged.
\<close>

theorem first_token_counterexample:
  "hd (split_ws ''ATOMIC 1 N MET A 1 1 1 1 1 1'') = ''ATOMIC''
   \<and> process_line ''ATOMIC 1 N MET A 1 1 1 1 1 1''
       = Inr (''ATOMIC    1 N    MET A   1       1.000   1.000   1.000  1.00  1.00            '' @ [NL])
   \<and> hd (split_ws '' ATOM 1 N MET A 1 1 1 1 1 1'') = ''ATOM''
   \<and> length (split_ws '' ATOM 1 N MET A 1 1 1 1 1 1'') = 11
   \<and> process_line '' ATOM 1 N MET A 1 1 1 1 1 1'' = Inr '' ATOM 1 N MET A 1 1 1 1 1 1''"
  by (simp add: eval_defs)







text \<open>
  C5, as amended. Let the run succeed on an input in which every reformatted line keeps its
  fields apart when written in fixed width (\<^const>\<open>separated\<close>: record type shorter than
  6 or serial shorter than 5 characters, residue number shorter than 4, x as written
  within 8, y and z as written shorter than 8, occupancy and B-factor as written shorter
  than 6). Then a second run, on the output, succeeds and writes the same output again.
\<close>

theorem idempotent_when_separated:
  assumes "fix_pdb_alignment inp = (out, None)"
    and "\<forall>l\<in>set (lines_of inp). reformats l \<longrightarrow> separated l"
  shows "fix_pdb_alignment out = (out, None)"
  using assms by (rule run_fixed_point)

theorem idempotent_when_separated_witness:
  "fix_pdb_alignment (''HEADER x'' @ [NL] @ ''ATOM 1 N MET A 1 10.0 20.0 30.0 1.00 20.00 N'' @ [NL] @ ''END'')
     = (''HEADER x'' @ [NL] @ ''ATOM      1 N    MET A   1      10.000  20.000  30.000  1.00 20.00           N'' @ [NL] @ ''END'', None)
   \<and> reformats (''ATOM 1 N MET A 1 10.0 20.0 30.0 1.00 20.00 N'' @ [NL])
   \<and> separated (''ATOM 1 N MET A 1 10.0 20.0 30.0 1.00 20.00 N'' @ [NL])
   \<and> fix_pdb_alignment (''HEADER x'' @ [NL] @ ''ATOM      1 N    MET A   1      10.000  20.000  30.000  1.00 20.00           N'' @ [NL] @ ''END'')
     = (''HEADER x'' @ [NL] @ ''ATOM      1 N    MET A   1      10.000  20.000  30.000  1.00 20.00           N'' @ [NL] @ ''END'', None)"
proof -
  have r: "fix_pdb_alignment (''HEADER x'' @ [NL] @ ''ATOM 1 N MET A 1 10.0 20.0 30.0 1.00 20.00 N'' @ [NL] @ ''END'')
     = (''HEADER x'' @ [NL] @ ''ATOM      1 N    MET A   1      10.000  20.000  30.000  1.00 20.00           N'' @ [NL] @ ''END'', None)"
    by (simp add: eval_defs)
  have l: "lines_of (''HEADER x'' @ [NL] @ ''ATOM 1 N MET A 1 10.0 20.0 30.0 1.00 20.00 N'' @ [NL] @ ''END'')
     = [''HEADER x'' @ [NL], ''ATOM 1 N MET A 1 10.0 20.0 30.0 1.00 20.00 N'' @ [NL], ''END'']"
    by simp
  have a: "reformats (''ATOM 1 N MET A 1 10.0 20.0 30.0 1.00 20.00 N'' @ [NL])"
    by (simp add: reformats_def startswith_def is_space_def)
  have s: "separated (''ATOM 1 N MET A 1 10.0 20.0 30.0 1.00 20.00 N'' @ [NL])"
    by (simp add: separated_def num_width_def eval_defs)
  have h: "\<not> reformats (''HEADER x'' @ [NL])" "\<not> reformats ''END''"
    by (simp_all add: reformats_def startswith_def)
  have "\<forall>l\<in>set (lines_of (''HEADER x'' @ [NL] @ ''ATOM 1 N MET A 1 10.0 20.0 30.0 1.00 20.00 N'' @ [NL] @ ''END'')). reformats l \<longrightarrow> separated l"
    unfolding l using s h by simp
  from idempotent_when_separated [OF r this] r a s show ?thesis by simp
qed

text \<open>
  C5 as stated fails. Every value of the line below fits its field (the residue number
  \<^verbatim>\<open>1000\<close> has the 4 characters of its width), and the run succeeds. In the line written the
  residue number follows the chain id at once, \<^verbatim>\<open>A1000\<close>: the second run finds 11 parts, takes
  the element \<^verbatim>\<open>N\<close> for the B-factor and ends with an error, having written nothing.
\<close>

theorem idempotence_counterexample:
  "split_ws (''ATOM 1 N MET A 1000 1 1 1 1 1 N'' @ [NL])
     = [''ATOM'', ''1'', ''N'', ''MET'', ''A'', ''1000'', ''1'', ''1'', ''1'', ''1'', ''1'', ''N'']
   \<and> fix_pdb_alignment (''ATOM 1 N MET A 1000 1 1 1 1 1 N'' @ [NL])
     = (''ATOM      1 N    MET A1000       1.000   1.000   1.000  1.00  1.00           N'' @ [NL], None)
   \<and> split_ws (''ATOM      1 N    MET A1000       1.000   1.000   1.000  1.00  1.00           N'' @ [NL])
     = [''ATOM'', ''1'', ''N'', ''MET'', ''A1000'', ''1.000'', ''1.000'', ''1.000'', ''1.00'', ''1.00'', ''N'']
   \<and> fix_pdb_alignment (''ATOM      1 N    MET A1000       1.000   1.000   1.000  1.00  1.00           N'' @ [NL])
     = ([], Some (ValueError ''N''))"
  by (simp add: eval_defs)

text \<open>
  C6. When the run succeeds, the output has as many lines as the input, the line at each
  position of the output is what the line at that position of the input produced
  (reformatted or copied), and these lines, in this order, make up the output.
\<close>

theorem lines_preserved:
  assumes "fix_pdb_alignment inp = (out, None)"
  shows "length (lines_of out) = length (lines_of inp)
     \<and> (\<forall>i<length (lines_of inp). process_line (lines_of inp ! i) = Inr (lines_of out ! i))
     \<and> concat (lines_of out) = out"
proof -
  have m: "map process_line (lines_of inp) = map Inr (lines_of out)"
    using assms by (rule run_ok_lines)
  then have len: "length (lines_of inp) = length (lines_of out)"
    by (metis length_map)
  have "process_line (lines_of inp ! i) = Inr (lines_of out ! i)" if "i < length (lines_of inp)" for i
  proof -
    have "map process_line (lines_of inp) ! i = map Inr (lines_of out) ! i" by (simp only: m)
    with that len show ?thesis by simp
  qed
  with len show ?thesis by (simp add: concat_lines_of)
qed

theorem lines_preserved_witness:
  "fix_pdb_alignment (''HEADER x'' @ [NL] @ ''ATOM 1 N MET A 1 10.0 20.0 30.0 1.00 20.00 N'' @ [NL] @ ''END'')
     = (''HEADER x'' @ [NL]
        @ ''ATOM      1 N    MET A   1      10.000  20.000  30.000  1.00 20.00           N'' @ [NL]
        @ ''END'', None)
   \<and> length (lines_of (''HEADER x'' @ [NL]
        @ ''ATOM      1 N    MET A   1      10.000  20.000  30.000  1.00 20.00           N'' @ [NL]
        @ ''END'')) = 3
   \<and> length (lines_of (''HEADER x'' @ [NL] @ ''ATOM 1 N MET A 1 10.0 20.0 30.0 1.00 20.00 N'' @ [NL] @ ''END'')) = 3"
proof -
  have r: "fix_pdb_alignment (''HEADER x'' @ [NL] @ ''ATOM 1 N MET A 1 10.0 20.0 30.0 1.00 20.00 N'' @ [NL] @ ''END'')
     = (''HEADER x'' @ [NL]
        @ ''ATOM      1 N    MET A   1      10.000  20.000  30.000  1.00 20.00           N'' @ [NL]
        @ ''END'', None)"
    by (simp add: eval_defs)
  have l: "length (lines_of (''HEADER x'' @ [NL] @ ''ATOM 1 N MET A 1 10.0 20.0 30.0 1.00 20.00 N'' @ [NL] @ ''END'')) = 3"
    by simp
  from lines_preserved [OF r] r l show ?thesis by simp
qed

text \<open>
  C7. The part \<^verbatim>\<open>1\<close> is the float 1, written \<^verbatim>\<open>1.000\<close> in a coordinate field and \<^verbatim>\<open>1.00\<close> in the
  occupancy and B-factor fields, right-justified to the widths 8 and 6; the coordinate
  \<^verbatim>\<open>-12.3456\<close> is the binary64 number nearest to it, written \<^verbatim>\<open>-12.346\<close> (three decimals,
  rounded). The line at the end shows them in their fields.
\<close>

theorem numeric_rendering:
  "to_float ''1'' = Inr (Finite False (2 ^ 52) (- 52))
   \<and> repr_f 3 (Finite False (2 ^ 52) (- 52)) = ''1.000''
   \<and> repr_f 2 (Finite False (2 ^ 52) (- 52)) = ''1.00''
   \<and> format_float 8 3 (Finite False (2 ^ 52) (- 52)) = ''   1.000''
   \<and> format_float 6 2 (Finite False (2 ^ 52) (- 52)) = ''  1.00''
   \<and> to_float ''-12.3456'' = Inr (Finite True 6949954944958149 (- 49))
   \<and> repr_f 3 (Finite True 6949954944958149 (- 49)) = ''-12.346''
   \<and> format_float 8 3 (Finite True 6949954944958149 (- 49)) = '' -12.346''
   \<and> process_line ''ATOM 1 N MET A 1 1 -12.3456 1 1 1 N''
       = Inr (''ATOM      1 N    MET A   1       1.000 -12.346   1.000  1.00  1.00           N'' @ [NL])"
  by (simp add: eval_defs)

text \<open>
  C8, as amended. In a reformatted line whose numbers parse, each of the seven text values
  (record type, serial, atom name, residue name, chain id, residue number, element) stands
  in the written line whole, whatever its length, and so does each of the five numbers as
  the format writes it (three decimals for the coordinates, two for occupancy and
  B-factor): padding widens a field to its width and never clips it. The characters of a
  numeric part itself need not stand in the line, since the number is written anew.
\<close>

theorem fields_never_clipped:
  assumes "startswith line ''ATOM'' \<or> startswith line ''HETATM''"
    and "parts = split_ws line" and "11 \<le> length parts"
    and "float_of_string (parts ! 6) = Some fx" "float_of_string (parts ! 7) = Some fy"
      "float_of_string (parts ! 8) = Some fz" "float_of_string (parts ! 9) = Some fo"
      "float_of_string (parts ! 10) = Some fb"
  shows "\<exists>out. process_line line = Inr out
     \<and> out = ljust 6 (parts ! 0) @ rjust 5 (parts ! 1) @ '' '' @ ljust 4 (parts ! 2) @ '' ''
           @ rjust 3 (parts ! 3) @ '' '' @ rjust 1 (parts ! 4) @ rjust 4 (parts ! 5) @ ''    ''
           @ rjust 8 (repr_f 3 fx) @ rjust 8 (repr_f 3 fy) @ rjust 8 (repr_f 3 fz)
           @ rjust 6 (repr_f 2 fo) @ rjust 6 (repr_f 2 fb) @ ''          ''
           @ rjust 2 (element_of parts) @ [NL]
     \<and> contains out (parts ! 0) \<and> contains out (parts ! 1) \<and> contains out (parts ! 2)
     \<and> contains out (parts ! 3) \<and> contains out (parts ! 4) \<and> contains out (parts ! 5)
     \<and> contains out (element_of parts)
     \<and> contains out (repr_f 3 fx) \<and> contains out (repr_f 3 fy) \<and> contains out (repr_f 3 fz)
     \<and> contains out (repr_f 2 fo) \<and> contains out (repr_f 2 fb)
     \<and> length (ljust w s) = max w (length s) \<and> length (rjust w s) = max w (length s)
     \<and> contains (ljust w s) s \<and> contains (rjust w s) s"
proof -
  define out where "out = fixed_width (parts ! 0) (parts ! 1) (parts ! 2) (parts ! 3) (parts ! 4)
    (parts ! 5) (repr_f 3 fx) (repr_f 3 fy) (repr_f 3 fz) (repr_f 2 fo) (repr_f 2 fb) (element_of parts)"
  have "process_line line = formatted_line parts"
    using assms(1-3) by (simp add: process_line_def)
  also have "\<dots> = Inr out"
    unfolding out_def by (rule formatted_line_fixed_width [OF assms(4-8)])
  finally have p: "process_line line = Inr out" .
  have e: "out = ljust 6 (parts ! 0) @ rjust 5 (parts ! 1) @ '' '' @ ljust 4 (parts ! 2) @ '' ''
           @ rjust 3 (parts ! 3) @ '' '' @ rjust 1 (parts ! 4) @ rjust 4 (parts ! 5) @ ''    ''
           @ rjust 8 (repr_f 3 fx) @ rjust 8 (repr_f 3 fy) @ rjust 8 (repr_f 3 fz)
           @ rjust 6 (repr_f 2 fo) @ rjust 6 (repr_f 2 fb) @ ''          ''
           @ rjust 2 (element_of parts) @ [NL]"
    unfolding out_def fixed_width_def ..
  note c = fixed_width_contains [of "parts ! 0" "parts ! 1" "parts ! 2" "parts ! 3" "parts ! 4"
      "parts ! 5" "repr_f 3 fx" "repr_f 3 fy" "repr_f 3 fz" "repr_f 2 fo" "repr_f 2 fb"
      "element_of parts", folded out_def]
  from p e c show ?thesis
    using length_ljust [of w s] length_rjust [of w s] contains_ljust [of w s] contains_rjust [of w s]
    by blast
qed

theorem fields_never_clipped_witness:
  "process_line ''HETATM 1234567 CA1234 HOH B 12 -1.5 2.25 300000 0.5 99.9 XYZ''
     = Inr (''HETATM1234567 CA1234 HOH B  12      -1.500   2.250300000.000  0.50 99.90          XYZ'' @ [NL])
   \<and> contains (''HETATM1234567 CA1234 HOH B  12      -1.500   2.250300000.000  0.50 99.90          XYZ'' @ [NL]) ''1234567''
   \<and> contains (''HETATM1234567 CA1234 HOH B  12      -1.500   2.250300000.000  0.50 99.90          XYZ'' @ [NL]) ''CA1234''
   \<and> contains (''HETATM1234567 CA1234 HOH B  12      -1.500   2.250300000.000  0.50 99.90          XYZ'' @ [NL]) ''300000.000''
   \<and> contains (''HETATM1234567 CA1234 HOH B  12      -1.500   2.250300000.000  0.50 99.90          XYZ'' @ [NL]) ''XYZ''"
proof -
  have s: "split_ws ''HETATM 1234567 CA1234 HOH B 12 -1.5 2.25 300000 0.5 99.9 XYZ''
      = [''HETATM'', ''1234567'', ''CA1234'', ''HOH'', ''B'', ''12'', ''-1.5'', ''2.25'', ''300000'', ''0.5'', ''99.9'', ''XYZ'']"
    by (simp add: is_space_def)
  have f: "float_of_string ''-1.5'' = Some (Finite True 6755399441055744 (- 52))"
    "float_of_string ''2.25'' = Some (Finite False 5066549580791808 (- 51))"
    "float_of_string ''300000'' = Some (Finite False 5153960755200000 (- 34))"
    "float_of_string ''0.5'' = Some (Finite False 4503599627370496 (- 53))"
    "float_of_string ''99.9'' = Some (Finite False 7029837543348634 (- 46))"
    by (simp_all add: eval_defs)
  have r: "repr_f 3 (Finite False 5153960755200000 (- 34)) = ''300000.000''"
    by (simp add: eval_defs)
  have p: "process_line ''HETATM 1234567 CA1234 HOH B 12 -1.5 2.25 300000 0.5 99.9 XYZ''
     = Inr (''HETATM1234567 CA1234 HOH B  12      -1.500   2.250300000.000  0.50 99.90          XYZ'' @ [NL])"
    by (simp add: eval_defs)
  have h1: "startswith ''HETATM 1234567 CA1234 HOH B 12 -1.5 2.25 300000 0.5 99.9 XYZ'' ''ATOM''
      \<or> startswith ''HETATM 1234567 CA1234 HOH B 12 -1.5 2.25 300000 0.5 99.9 XYZ'' ''HETATM''"
    by (simp add: startswith_def)
  have h3: "11 \<le> length (split_ws ''HETATM 1234567 CA1234 HOH B 12 -1.5 2.25 300000 0.5 99.9 XYZ'')"
    unfolding s by simp
  have g: "float_of_string (split_ws ''HETATM 1234567 CA1234 HOH B 12 -1.5 2.25 300000 0.5 99.9 XYZ'' ! 6) = Some (Finite True 6755399441055744 (- 52))"
    "float_of_string (split_ws ''HETATM 1234567 CA1234 HOH B 12 -1.5 2.25 300000 0.5 99.9 XYZ'' ! 7) = Some (Finite False 5066549580791808 (- 51))"
    "float_of_string (split_ws ''HETATM 1234567 CA1234 HOH B 12 -1.5 2.25 300000 0.5 99.9 XYZ'' ! 8) = Some (Finite False 5153960755200000 (- 34))"
    "float_of_string (split_ws ''HETATM 1234567 CA1234 HOH B 12 -1.5 2.25 300000 0.5 99.9 XYZ'' ! 9) = Some (Finite False 4503599627370496 (- 53))"
    "float_of_string (split_ws ''HETATM 1234567 CA1234 HOH B 12 -1.5 2.25 300000 0.5 99.9 XYZ'' ! 10) = Some (Finite False 7029837543348634 (- 46))"
    unfolding s by (simp_all add: f)
  from fields_never_clipped [OF h1 refl h3 g]
  obtain out where o: "process_line ''HETATM 1234567 CA1234 HOH B 12 -1.5 2.25 300000 0.5 99.9 XYZ'' = Inr out"
    and c: "contains out (split_ws ''HETATM 1234567 CA1234 HOH B 12 -1.5 2.25 300000 0.5 99.9 XYZ'' ! 1)"
      "contains out (split_ws ''HETATM 1234567 CA1234 HOH B 12 -1.5 2.25 300000 0.5 99.9 XYZ'' ! 2)"
      "contains out (repr_f 3 (Finite False 5153960755200000 (- 34)))"
      "contains out (element_of (split_ws ''HETATM 1234567 CA1234 HOH B 12 -1.5 2.25 300000 0.5 99.9 XYZ''))"
    by blast
  from o p have "out = ''HETATM1234567 CA1234 HOH B  12      -1.500   2.250300000.000  0.50 99.90          XYZ'' @ [NL]"
    by simp
  with c p show ?thesis
    unfolding s r by (simp add: element_of_def)
qed

text \<open>
  C8 as stated fails for a numeric part. The seventh part of the line below,
  \<^verbatim>\<open>12345.67891\<close>, has 11 characters, more than the 8 of its field, and so has the number as
  written, \<^verbatim>\<open>12345.679\<close> (9 characters); the line written holds the latter, and the part
  \<^verbatim>\<open>12345.67891\<close> stands nowhere in it.
\<close>

theorem numeric_token_counterexample:
  "split_ws ''ATOM 1 N MET A 1 12345.67891 1 1 1 1'' ! 6 = ''12345.67891''
   \<and> length ''12345.67891'' = 11
   \<and> process_line ''ATOM 1 N MET A 1 12345.67891 1 1 1 1''
       = Inr (''ATOM      1 N    MET A   1    12345.679   1.000   1.000  1.00  1.00            '' @ [NL])
   \<and> \<not> contains (''ATOM      1 N    MET A   1    12345.679   1.000   1.000  1.00  1.00            '' @ [NL])
         ''12345.67891''"
  by (simp add: eval_defs)

text \<open>
  C9, as amended. In a reformatted line whose numbers parse, the element is the empty
  string when the line has exactly 11 parts and the twelfth part otherwise; right-justified
  to the width 2 (two spaces when it is empty), it is the last field of the line written,
  just before the newline. It stands in the columns 77 and 78 when the fields before it
  fit their widths (they then fill the columns 1 to 76) and the element has at most two
  characters; a field that overflows moves it to the right.
\<close>

theorem element_last_field:
  assumes "startswith line ''ATOM'' \<or> startswith line ''HETATM''"
    and "parts = split_ws line" and "11 \<le> length parts"
    and "float_of_string (parts ! 6) = Some fx" "float_of_string (parts ! 7) = Some fy"
      "float_of_string (parts ! 8) = Some fz" "float_of_string (parts ! 9) = Some fo"
      "float_of_string (parts ! 10) = Some fb"
  shows "\<exists>body. process_line line = Inr (body @ rjust 2 (element_of parts) @ [NL])
     \<and> element_of parts = (if length parts = 11 then [] else parts ! 11)
     \<and> (length parts = 11 \<longrightarrow> rjust 2 (element_of parts) = ''  '')
     \<and> (length (parts ! 0) \<le> 6 \<and> length (parts ! 1) \<le> 5 \<and> length (parts ! 2) \<le> 4
          \<and> length (parts ! 3) \<le> 3 \<and> length (parts ! 4) \<le> 1 \<and> length (parts ! 5) \<le> 4
          \<and> length (repr_f 3 fx) \<le> 8 \<and> length (repr_f 3 fy) \<le> 8 \<and> length (repr_f 3 fz) \<le> 8
          \<and> length (repr_f 2 fo) \<le> 6 \<and> length (repr_f 2 fb) \<le> 6
          \<longrightarrow> length body = 76
              \<and> (length (element_of parts) \<le> 2 \<longrightarrow>
                    cols 77 78 (body @ rjust 2 (element_of parts) @ [NL]) = rjust 2 (element_of parts)))"
proof -
  define body where "body = ljust 6 (parts ! 0) @ rjust 5 (parts ! 1) @ '' '' @ ljust 4 (parts ! 2) @ '' ''
           @ rjust 3 (parts ! 3) @ '' '' @ rjust 1 (parts ! 4) @ rjust 4 (parts ! 5) @ ''    ''
           @ rjust 8 (repr_f 3 fx) @ rjust 8 (repr_f 3 fy) @ rjust 8 (repr_f 3 fz)
           @ rjust 6 (repr_f 2 fo) @ rjust 6 (repr_f 2 fb) @ ''          ''"
  have "process_line line = formatted_line parts"
    using assms(1-3) by (simp add: process_line_def)
  also have "\<dots> = Inr (fixed_width (parts ! 0) (parts ! 1) (parts ! 2) (parts ! 3) (parts ! 4)
    (parts ! 5) (repr_f 3 fx) (repr_f 3 fy) (repr_f 3 fz) (repr_f 2 fo) (repr_f 2 fb) (element_of parts))"
    by (rule formatted_line_fixed_width [OF assms(4-8)])
  also have "\<dots> = Inr (body @ rjust 2 (element_of parts) @ [NL])"
    by (simp add: fixed_width_def body_def)
  finally have p: "process_line line = Inr (body @ rjust 2 (element_of parts) @ [NL])" .
  have e: "element_of parts = (if length parts = 11 then [] else parts ! 11)"
    using assms(3) by (auto simp add: element_of_def)
  have s: "length parts = 11 \<longrightarrow> rjust 2 (element_of parts) = ''  ''"
    by (simp add: e rjust_def replicate_numeral)
  have l: "length body = 76"
    if "length (parts ! 0) \<le> 6" "length (parts ! 1) \<le> 5" "length (parts ! 2) \<le> 4"
      "length (parts ! 3) \<le> 3" "length (parts ! 4) \<le> 1" "length (parts ! 5) \<le> 4"
      "length (repr_f 3 fx) \<le> 8" "length (repr_f 3 fy) \<le> 8" "length (repr_f 3 fz) \<le> 8"
      "length (repr_f 2 fo) \<le> 6" "length (repr_f 2 fb) \<le> 6"
    using that unfolding body_def by (simp add: length_ljust length_rjust max_def)
  have c: "cols 77 78 (body @ rjust 2 (element_of parts) @ [NL]) = rjust 2 (element_of parts)"
    if "length body = 76" "length (element_of parts) \<le> 2"
    by (rule cols_segment) (use that in \<open>simp_all add: length_rjust max_def\<close>)
  from p e s l c show ?thesis by blast
qed

theorem element_last_field_witness:
  "length (split_ws ''ATOM 1 N MET A 1 10.0 20.0 30.0 1.00 20.00 N'') = 12
   \<and> process_line ''ATOM 1 N MET A 1 10.0 20.0 30.0 1.00 20.00 N''
       = Inr (''ATOM      1 N    MET A   1      10.000  20.000  30.000  1.00 20.00           N'' @ [NL])
   \<and> cols 77 78 (''ATOM      1 N    MET A   1      10.000  20.000  30.000  1.00 20.00           N'' @ [NL]) = '' N''
   \<and> length (split_ws ''HETATM 1234 CA HOH B 12 -1.5 2.25 3 0.5 99.9'') = 11
   \<and> element_of (split_ws ''HETATM 1234 CA HOH B 12 -1.5 2.25 3 0.5 99.9'') = []"
proof -
  have s: "split_ws ''ATOM 1 N MET A 1 10.0 20.0 30.0 1.00 20.00 N''
      = [''ATOM'', ''1'', ''N'', ''MET'', ''A'', ''1'', ''10.0'', ''20.0'', ''30.0'', ''1.00'', ''20.00'', ''N'']"
    by (simp add: is_space_def)
  have f: "float_of_string ''10.0'' = Some (Finite False 5629499534213120 (- 49))"
    "float_of_string ''20.0'' = Some (Finite False 5629499534213120 (- 48))"
    "float_of_string ''30.0'' = Some (Finite False 8444249301319680 (- 48))"
    "float_of_string ''1.00'' = Some (Finite False 4503599627370496 (- 52))"
    "float_of_string ''20.00'' = Some (Finite False 5629499534213120 (- 48))"
    by (simp_all add: eval_defs)
  have r: "repr_f 3 (Finite False 5629499534213120 (- 49)) = ''10.000''"
    "repr_f 3 (Finite False 5629499534213120 (- 48)) = ''20.000''"
    "repr_f 3 (Finite False 8444249301319680 (- 48)) = ''30.000''"
    "repr_f 2 (Finite False 4503599627370496 (- 52)) = ''1.00''"
    "repr_f 2 (Finite False 5629499534213120 (- 48)) = ''20.00''"
    by (simp_all add: eval_defs)
  have p: "process_line ''ATOM 1 N MET A 1 10.0 20.0 30.0 1.00 20.00 N''
      = Inr (''ATOM      1 N    MET A   1      10.000  20.000  30.000  1.00 20.00           N'' @ [NL])"
    by (simp add: eval_defs)
  have h1: "startswith ''ATOM 1 N MET A 1 10.0 20.0 30.0 1.00 20.00 N'' ''ATOM''
      \<or> startswith ''ATOM 1 N MET A 1 10.0 20.0 30.0 1.00 20.00 N'' ''HETATM''"
    by (simp add: startswith_def)
  have h3: "11 \<le> length (split_ws ''ATOM 1 N MET A 1 10.0 20.0 30.0 1.00 20.00 N'')"
    unfolding s by simp
  have g: "float_of_string (split_ws ''ATOM 1 N MET A 1 10.0 20.0 30.0 1.00 20.00 N'' ! 6) = Some (Finite False 5629499534213120 (- 49))"
    "float_of_string (split_ws ''ATOM 1 N MET A 1 10.0 20.0 30.0 1.00 20.00 N'' ! 7) = Some (Finite False 5629499534213120 (- 48))"
    "float_of_string (split_ws ''ATOM 1 N MET A 1 10.0 20.0 30.0 1.00 20.00 N'' ! 8) = Some (Finite False 8444249301319680 (- 48))"
    "float_of_string (split_ws ''ATOM 1 N MET A 1 10.0 20.0 30.0 1.00 20.00 N'' ! 9) = Some (Finite False 4503599627370496 (- 52))"
    "float_of_string (split_ws ''ATOM 1 N MET A 1 10.0 20.0 30.0 1.00 20.00 N'' ! 10) = Some (Finite False 5629499534213120 (- 48))"
    unfolding s by (simp_all add: f)
  from element_last_field [OF h1 refl h3 g]
  obtain body where b: "process_line ''ATOM 1 N MET A 1 10.0 20.0 30.0 1.00 20.00 N''
        = Inr (body @ rjust 2 (element_of (split_ws ''ATOM 1 N MET A 1 10.0 20.0 30.0 1.00 20.00 N'')) @ [NL])"
    and c: "length (split_ws ''ATOM 1 N MET A 1 10.0 20.0 30.0 1.00 20.00 N'' ! 0) \<le> 6
          \<and> length (split_ws ''ATOM 1 N MET A 1 10.0 20.0 30.0 1.00 20.00 N'' ! 1) \<le> 5
          \<and> length (split_ws ''ATOM 1 N MET A 1 10.0 20.0 30.0 1.00 20.00 N'' ! 2) \<le> 4
          \<and> length (split_ws ''ATOM 1 N MET A 1 10.0 20.0 30.0 1.00 20.00 N'' ! 3) \<le> 3
          \<and> length (split_ws ''ATOM 1 N MET A 1 10.0 20.0 30.0 1.00 20.00 N'' ! 4) \<le> 1
          \<and> length (split_ws ''ATOM 1 N MET A 1 10.0 20.0 30.0 1.00 20.00 N'' ! 5) \<le> 4
          \<and> length (repr_f 3 (Finite False 5629499534213120 (- 49))) \<le> 8
          \<and> length (repr_f 3 (Finite False 5629499534213120 (- 48))) \<le> 8
          \<and> length (repr_f 3 (Finite False 8444249301319680 (- 48))) \<le> 8
          \<and> length (repr_f 2 (Finite False 4503599627370496 (- 52))) \<le> 6
          \<and> length (repr_f 2 (Finite False 5629499534213120 (- 48))) \<le> 6
          \<longrightarrow> length body = 76
              \<and> (length (element_of (split_ws ''ATOM 1 N MET A 1 10.0 20.0 30.0 1.00 20.00 N'')) \<le> 2 \<longrightarrow>
                    cols 77 78 (body @ rjust 2 (element_of (split_ws ''ATOM 1 N MET A 1 10.0 20.0 30.0 1.00 20.00 N'')) @ [NL])
                      = rjust 2 (element_of (split_ws ''ATOM 1 N MET A 1 10.0 20.0 30.0 1.00 20.00 N'')))"
    by blast
  have el: "element_of (split_ws ''ATOM 1 N MET A 1 10.0 20.0 30.0 1.00 20.00 N'') = ''N''"
    unfolding s by (simp add: element_of_def)
  from c have "cols 77 78 (body @ rjust 2 ''N'' @ [NL]) = rjust 2 ''N''"
    unfolding el r unfolding s by simp
  moreover from b p have "body @ rjust 2 ''N'' @ [NL] = ''ATOM      1 N    MET A   1      10.000  20.000  30.000  1.00 20.00           N'' @ [NL]"
    unfolding el by simp
  ultimately have "cols 77 78 (''ATOM      1 N    MET A   1      10.000  20.000  30.000  1.00 20.00           N'' @ [NL]) = rjust 2 ''N''"
    by (simp only:)
  then have "cols 77 78 (''ATOM      1 N    MET A   1      10.000  20.000  30.000  1.00 20.00           N'' @ [NL]) = '' N''"
    by (simp add: rjust_def)
  with p show ?thesis
    unfolding s by (simp add: element_of_def is_space_def)
qed

text \<open>
  C9 as stated fails when a field before the element overflows. With the serial
  \<^verbatim>\<open>100000\<close> (6 characters) the element \<^verbatim>\<open>N\<close> of a 12-part line stands in the columns 78 and
  79, and the columns 77 and 78 hold two spaces. With an atom name of 16 characters the
  columns 77 and 78 of an 11-part line hold the digits \<^verbatim>\<open>00\<close> of the B-factor, not spaces.
\<close>

theorem element_columns_counterexample:
  "length (split_ws ''ATOM 100000 N MET A 1 1 1 1 1 1 N'') = 12
   \<and> split_ws ''ATOM 100000 N MET A 1 1 1 1 1 1 N'' ! 11 = ''N''
   \<and> process_line ''ATOM 100000 N MET A 1 1 1 1 1 1 N''
       = Inr (''ATOM  100000 N    MET A   1       1.000   1.000   1.000  1.00  1.00           N'' @ [NL])
   \<and> cols 77 78 (''ATOM  100000 N    MET A   1       1.000   1.000   1.000  1.00  1.00           N'' @ [NL]) = ''  ''
   \<and> cols 78 79 (''ATOM  100000 N    MET A   1       1.000   1.000   1.000  1.00  1.00           N'' @ [NL]) = '' N''
   \<and> length (split_ws ''ATOM 1 ABCDEFGHIJKLMNOP MET A 1 1 1 1 1 1'') = 11
   \<and> process_line ''ATOM 1 ABCDEFGHIJKLMNOP MET A 1 1 1 1 1 1''
       = Inr (''ATOM      1 ABCDEFGHIJKLMNOP MET A   1       1.000   1.000   1.000  1.00  1.00            '' @ [NL])
   \<and> cols 77 78 (''ATOM      1 ABCDEFGHIJKLMNOP MET A   1       1.000   1.000   1.000  1.00  1.00            '' @ [NL]) = ''00''"
  by (simp add: eval_defs)

text \<open>
  C10. The formatted line is a function of the first 12 parts: two lines that are
  reformatted and agree on their first 12 parts produce the same output (or the same
  error), whatever parts follow.
\<close>

theorem extra_tokens_ignored:
  assumes "startswith l1 ''ATOM'' \<or> startswith l1 ''HETATM''" "11 \<le> length (split_ws l1)"
    and "startswith l2 ''ATOM'' \<or> startswith l2 ''HETATM''" "11 \<le> length (split_ws l2)"
    and "take 12 (split_ws l1) = take 12 (split_ws l2)"
  shows "process_line l1 = process_line l2
     \<and> process_line l1 = formatted_line (take 12 (split_ws l1))"
proof -
  have "process_line l1 = formatted_line (split_ws l1)"
    using assms(1,2) by (simp add: process_line_def)
  also have "\<dots> = formatted_line (take 12 (split_ws l1))"
    using assms(2) by (rule formatted_line_take [symmetric])
  finally have a: "process_line l1 = formatted_line (take 12 (split_ws l1))" .
  have "process_line l2 = formatted_line (split_ws l2)"
    using assms(3,4) by (simp add: process_line_def)
  also have "\<dots> = formatted_line (take 12 (split_ws l2))"
    using assms(4) by (rule formatted_line_take [symmetric])
  finally have "process_line l2 = formatted_line (take 12 (split_ws l1))"
    by (simp only: assms(5))
  with a show ?thesis by simp
qed

theorem extra_tokens_ignored_witness:
  "length (split_ws ''ATOM 1 N MET A 1 1 1 1 1 1 N extra 99'') = 14
   \<and> take 12 (split_ws ''ATOM 1 N MET A 1 1 1 1 1 1 N extra 99'') = split_ws ''ATOM 1 N MET A 1 1 1 1 1 1 N''
   \<and> process_line ''ATOM 1 N MET A 1 1 1 1 1 1 N extra 99'' = process_line ''ATOM 1 N MET A 1 1 1 1 1 1 N''"
proof -
  have 1: "startswith ''ATOM 1 N MET A 1 1 1 1 1 1 N extra 99'' ''ATOM''
      \<or> startswith ''ATOM 1 N MET A 1 1 1 1 1 1 N extra 99'' ''HETATM''"
    by (simp add: startswith_def)
  have 2: "11 \<le> length (split_ws ''ATOM 1 N MET A 1 1 1 1 1 1 N extra 99'')"
    by (simp add: is_space_def)
  have 3: "startswith ''ATOM 1 N MET A 1 1 1 1 1 1 N'' ''ATOM''
      \<or> startswith ''ATOM 1 N MET A 1 1 1 1 1 1 N'' ''HETATM''"
    by (simp add: startswith_def)
  have 4: "11 \<le> length (split_ws ''ATOM 1 N MET A 1 1 1 1 1 1 N'')"
    by (simp add: is_space_def)
  have 5: "take 12 (split_ws ''ATOM 1 N MET A 1 1 1 1 1 1 N extra 99'')
      = take 12 (split_ws ''ATOM 1 N MET A 1 1 1 1 1 1 N'')"
    by (simp add: is_space_def)
  from extra_tokens_ignored [OF 1 2 3 4 5] show ?thesis
    by (simp add: is_space_def)
qed

end
